theory Spec2Isabelle
  imports Complex_Main
begin

section \<open>Time values and the civil calendar\<close>

text \<open>
  Modelled from the spec: the recurrence engine (\<open>lib/recurring-utils\<close>) imports
  \<open>addDays\<close>, \<open>addWeeks\<close>, \<open>addMonths\<close>, \<open>addYears\<close>, \<open>isAfter\<close>, \<open>isBefore\<close> and
  \<open>startOfDay\<close> from the date-fns package and works on the built-in \<open>Date\<close> object;
  neither is part of the repository's sources. A \<open>Date\<close> is its time value, the number of
  milliseconds since 1970-01-01T00:00:00Z, an unbounded \<open>int\<close> here (the range limit of
  about 8.64e15 ms and the invalid date NaN are left out: the spec assumes dates that
  parse). The calendar functions follow the time-value algorithms of the language
  standard (Day, TimeWithinDay, DaysInYear, DayFromYear, YearFromTime, MonthFromTime,
  DateFromTime, MakeDay, MakeDate); the local time zone is taken to be UTC, so that
  local midnight is a multiple of \<open>msPerDay\<close>, as the spec's whole-day granularity asks.
  Month addition clamps to the last day of the target month, the rule of date-fns.
\<close>

type_synonym date = int

definition msPerDay :: int where
  "msPerDay = 86400000"

definition Day :: "date \<Rightarrow> int" where
  "Day t = t div msPerDay"

definition TimeWithinDay :: "date \<Rightarrow> int" where
  "TimeWithinDay t = t mod msPerDay"

definition MakeDate :: "int \<Rightarrow> int \<Rightarrow> date" where
  "MakeDate day time = day * msPerDay + time"

definition DaysInYear :: "int \<Rightarrow> int" where
  "DaysInYear y =
     (if y mod 4 \<noteq> 0 then 365
      else if y mod 100 \<noteq> 0 then 366
      else if y mod 400 \<noteq> 0 then 365
      else 366)"

definition DayFromYear :: "int \<Rightarrow> int" where
  "DayFromYear y =
     365 * (y - 1970) + (y - 1969) div 4 - (y - 1901) div 100 + (y - 1601) div 400"

text \<open>
  The standard defines the year of a day as the largest \<open>y\<close> with
  \<open>DayFromYear y \<le> d\<close>. It is computed from the estimate \<open>1970 + 400 d div 146097\<close>
  (a year has 146097/400 days on average), which is off by at most one;
  \<open>YearFromDay_bounds\<close> and \<open>YearFromDay_unique\<close> below show that the result is the year
  the standard means.
\<close>

definition YearFromDay :: "int \<Rightarrow> int" where
  "YearFromDay d =
     (let g = 1970 + (400 * d) div 146097
      in if DayFromYear (g + 1) \<le> d then g + 1
         else if DayFromYear g \<le> d then g
         else g - 1)"

definition YearFromTime :: "date \<Rightarrow> int" where
  "YearFromTime t = YearFromDay (Day t)"

definition LeapYear :: "int \<Rightarrow> int" where
  "LeapYear y = (if DaysInYear y = 366 then 1 else 0)"

definition InLeapYear :: "date \<Rightarrow> int" where
  "InLeapYear t = LeapYear (YearFromTime t)"

definition DayWithinYear :: "date \<Rightarrow> int" where
  "DayWithinYear t = Day t - DayFromYear (YearFromTime t)"

definition DaysBeforeMonth :: "int \<Rightarrow> int \<Rightarrow> int" where
  "DaysBeforeMonth m leap =
     (if m = 0 then 0
      else if m = 1 then 31
      else if m = 2 then 59 + leap
      else if m = 3 then 90 + leap
      else if m = 4 then 120 + leap
      else if m = 5 then 151 + leap
      else if m = 6 then 181 + leap
      else if m = 7 then 212 + leap
      else if m = 8 then 243 + leap
      else if m = 9 then 273 + leap
      else if m = 10 then 304 + leap
      else 334 + leap)"

definition MonthFromDayWithinYear :: "int \<Rightarrow> int \<Rightarrow> int" where
  "MonthFromDayWithinYear n leap =
     (if n < 31 then 0
      else if n < 59 + leap then 1
      else if n < 90 + leap then 2
      else if n < 120 + leap then 3
      else if n < 151 + leap then 4
      else if n < 181 + leap then 5
      else if n < 212 + leap then 6
      else if n < 243 + leap then 7
      else if n < 273 + leap then 8
      else if n < 304 + leap then 9
      else if n < 334 + leap then 10
      else 11)"

definition MonthFromTime :: "date \<Rightarrow> int" where
  "MonthFromTime t = MonthFromDayWithinYear (DayWithinYear t) (InLeapYear t)"

definition DateFromTime :: "date \<Rightarrow> int" where
  "DateFromTime t =
     DayWithinYear t - DaysBeforeMonth (MonthFromTime t) (InLeapYear t) + 1"

definition MakeDay :: "int \<Rightarrow> int \<Rightarrow> int \<Rightarrow> int" where
  "MakeDay year month dt =
     (let ym = year + month div 12;
          mn = month mod 12
      in DayFromYear ym + DaysBeforeMonth mn (LeapYear ym) + dt - 1)"

text \<open>
  Months counted from year 0 (\<open>12 * year + month\<close>), the first day of such a month and
  its length: the vocabulary in which the lemmas on \<open>addMonths\<close> are stated.
\<close>

definition DaysInMonth :: "int \<Rightarrow> int \<Rightarrow> int" where
  "DaysInMonth m leap =
     (if m = 1 then 28 + leap
      else if m = 3 \<or> m = 5 \<or> m = 8 \<or> m = 10 then 30
      else 31)"

definition monthIndex :: "date \<Rightarrow> int" where
  "monthIndex t = 12 * YearFromTime t + MonthFromTime t"

definition firstDayOfMonth :: "int \<Rightarrow> int" where
  "firstDayOfMonth i =
     DayFromYear (i div 12) + DaysBeforeMonth (i mod 12) (LeapYear (i div 12))"

definition daysInMonthIndex :: "int \<Rightarrow> int" where
  "daysInMonthIndex i = DaysInMonth (i mod 12) (LeapYear (i div 12))"

subsection \<open>The methods of \<open>Date\<close> that date-fns calls\<close>

definition getDate :: "date \<Rightarrow> int" where
  "getDate t = DateFromTime t"

definition getMonth :: "date \<Rightarrow> int" where
  "getMonth t = MonthFromTime t"

definition getFullYear :: "date \<Rightarrow> int" where
  "getFullYear t = YearFromTime t"

definition setHours0 :: "date \<Rightarrow> date" where
  "setHours0 t = MakeDate (Day t) 0"

definition setDate :: "date \<Rightarrow> int \<Rightarrow> date" where
  "setDate t dt =
     MakeDate (MakeDay (YearFromTime t) (MonthFromTime t) dt) (TimeWithinDay t)"

definition setMonth :: "date \<Rightarrow> int \<Rightarrow> int \<Rightarrow> date" where
  "setMonth t month dt =
     MakeDate (MakeDay (YearFromTime t) month dt) (TimeWithinDay t)"

definition setFullYear :: "date \<Rightarrow> int \<Rightarrow> int \<Rightarrow> int \<Rightarrow> date" where
  "setFullYear t year month dt =
     MakeDate (MakeDay year month dt) (TimeWithinDay t)"

subsection \<open>date-fns\<close>

definition startOfDay :: "date \<Rightarrow> date" where
  "startOfDay d = setHours0 d"

definition isAfter :: "date \<Rightarrow> date \<Rightarrow> bool" where
  "isAfter d dateToCompare = (d > dateToCompare)"

definition isBefore :: "date \<Rightarrow> date \<Rightarrow> bool" where
  "isBefore d dateToCompare = (d < dateToCompare)"

definition addDays :: "date \<Rightarrow> int \<Rightarrow> date" where
  "addDays d amount =
     (if amount = 0 then d else setDate d (getDate d + amount))"

definition addWeeks :: "date \<Rightarrow> int \<Rightarrow> date" where
  "addWeeks d amount = addDays d (amount * 7)"

definition addMonths :: "date \<Rightarrow> int \<Rightarrow> date" where
  "addMonths d amount =
     (if amount = 0 then d
      else
        let dayOfMonth = getDate d;
            endOfDesiredMonth = setMonth d (getMonth d + amount + 1) 0;
            daysInMonth = getDate endOfDesiredMonth
        in if dayOfMonth \<ge> daysInMonth then endOfDesiredMonth
           else setFullYear d (getFullYear endOfDesiredMonth)
                  (getMonth endOfDesiredMonth) dayOfMonth)"

definition addYears :: "date \<Rightarrow> int \<Rightarrow> date" where
  "addYears d amount = addMonths d (amount * 12)"

section \<open>The recurrence engine\<close>

text \<open>
  Modelled from the spec: the types \<open>RecurringTransaction\<close> and \<open>Transaction\<close> are declared
  in \<open>types/finance\<close>, which is not among the sources; their fields are taken from the
  uses in \<open>generateDueTransactions\<close>, from the table definitions of \<open>db/schema.ts\<close> and
  from section 3 of the spec. Field names carry a prefix because both records have a
  \<open>type\<close>, an \<open>amount\<close>, a \<open>category\<close> and a \<open>description\<close>. Date fields hold the time
  value that \<open>new Date(field)\<close> yields; an absent (null, undefined) optional field is
  \<open>None\<close>. The frequency is the string of the source, so that the \<open>default\<close> branch of
  \<open>getNextOccurrence\<close> is part of the model.
\<close>

record RecurringTransaction =
  r_id :: int
  r_type :: string
  r_amount :: real
  r_category :: string
  r_description :: "string option"
  r_frequency :: string
  r_startDate :: date
  r_endDate :: "date option"
  r_lastGenerated :: "date option"
  r_isActive :: bool

record Transaction =
  t_type :: string
  t_amount :: real
  t_category :: string
  t_description :: string
  t_date :: date
  t_recurringId :: int

definition VALID_FREQUENCIES :: "string list" where
  "VALID_FREQUENCIES = [''daily'', ''weekly'', ''monthly'', ''yearly'']"

text \<open>The conversion a template literal applies to an optional string.\<close>

definition templateString :: "string option \<Rightarrow> string" where
  "templateString s = (case s of None \<Rightarrow> ''null'' | Some v \<Rightarrow> v)"

definition getNextOccurrence :: "RecurringTransaction \<Rightarrow> date \<Rightarrow> date" where
  "getNextOccurrence recurring fromDate =
     (let start = startOfDay fromDate
      in if r_frequency recurring = ''daily'' then addDays start 1
         else if r_frequency recurring = ''weekly'' then addWeeks start 1
         else if r_frequency recurring = ''monthly'' then addMonths start 1
         else if r_frequency recurring = ''yearly'' then addYears start 1
         else start)"

definition newTransaction :: "RecurringTransaction \<Rightarrow> date \<Rightarrow> Transaction" where
  "newTransaction recurring nextDue =
     \<lparr> t_type = r_type recurring,
       t_amount = r_amount recurring,
       t_category = r_category recurring,
       t_description = templateString (r_description recurring) @ '' (Auto)'',
       t_date = nextDue,
       t_recurringId = r_id recurring \<rparr>"

definition endDatePassed :: "RecurringTransaction \<Rightarrow> date \<Rightarrow> bool" where
  "endDatePassed recurring d =
     (case r_endDate recurring of
        None \<Rightarrow> False
      | Some e \<Rightarrow> isAfter d (startOfDay e))"

text \<open>
  The \<open>while (true)\<close> loop of \<open>generateDueTransactions\<close>: the state is \<open>nextDue\<close> and the
  array \<open>newTransactions\<close>; \<open>break\<close> returns the array, \<open>continue\<close> and the end of the body
  go round again. A run that never leaves the loop is the value \<open>None\<close>.
\<close>

partial_function (option) dueLoop ::
  "RecurringTransaction \<Rightarrow> date \<Rightarrow> date \<Rightarrow> Transaction list \<Rightarrow> Transaction list option"
where
  "dueLoop recurring now nextDue newTransactions =
     (let nextDue' = getNextOccurrence recurring nextDue
      in if isAfter nextDue' now then Some newTransactions
         else if isBefore nextDue' (startOfDay (r_startDate recurring))
           then dueLoop recurring now nextDue' newTransactions
         else if endDatePassed recurring nextDue' then Some newTransactions
         else dueLoop recurring now nextDue'
                (newTransactions @ [newTransaction recurring nextDue']))"

definition generateDueTransactions ::
  "RecurringTransaction \<Rightarrow> date \<Rightarrow> Transaction list option"
where
  "generateDueTransactions recurring currentDate =
     (let now = startOfDay currentDate
      in if \<not> r_isActive recurring then Some []
         else if endDatePassed recurring now then Some []
         else
           let checkFromDate =
                 (case r_lastGenerated recurring of
                    Some g \<Rightarrow> startOfDay g
                  | None \<Rightarrow> startOfDay (r_startDate recurring))
           in dueLoop recurring now checkFromDate [])"

declare dueLoop.simps [code]

subsection \<open>Well-formed frequencies, iteration count and elapsed periods\<close>

text \<open>
  The schedules that the API route \<open>POST /api/recurring\<close> accepts carry one of the four
  frequencies of \<open>VALID_FREQUENCIES\<close>.
\<close>

definition validFrequency :: "RecurringTransaction \<Rightarrow> bool" where
  "validFrequency recurring = (r_frequency recurring \<in> set VALID_FREQUENCIES)"

text \<open>
  The same loop with its output replaced by the number of times the loop body is entered
  (the iteration that leaves by \<open>break\<close> included).
\<close>

partial_function (option) dueLoopIterations ::
  "RecurringTransaction \<Rightarrow> date \<Rightarrow> date \<Rightarrow> nat option"
where
  "dueLoopIterations recurring now nextDue =
     (let nextDue' = getNextOccurrence recurring nextDue
      in if isAfter nextDue' now then Some 1
         else if isBefore nextDue' (startOfDay (r_startDate recurring))
           then Option.bind (dueLoopIterations recurring now nextDue') (\<lambda>k. Some (Suc k))
         else if endDatePassed recurring nextDue' then Some 1
         else Option.bind (dueLoopIterations recurring now nextDue') (\<lambda>k. Some (Suc k)))"

declare dueLoopIterations.simps [code]

text \<open>
  The number of periods of the schedule's frequency between two dates: days, whole weeks,
  calendar months or calendar years from the day of \<open>anchor\<close> to the day of \<open>now\<close>.
\<close>

definition periodsElapsed :: "RecurringTransaction \<Rightarrow> date \<Rightarrow> date \<Rightarrow> int" where
  "periodsElapsed recurring anchor now =
     (if r_frequency recurring = ''daily'' then Day now - Day anchor
      else if r_frequency recurring = ''weekly'' then (Day now - Day anchor) div 7
      else if r_frequency recurring = ''monthly'' then monthIndex now - monthIndex anchor
      else YearFromTime now - YearFromTime anchor)"

text \<open>The bound on the iterations in the words of the spec: no more iterations than
  periods elapsed. A loop that does not return is not within the bound.\<close>

definition iterationsWithinPeriods :: "RecurringTransaction \<Rightarrow> date \<Rightarrow> date \<Rightarrow> bool" where
  "iterationsWithinPeriods recurring now anchor =
     (case dueLoopIterations recurring now anchor of
        None \<Rightarrow> False
      | Some k \<Rightarrow> int k \<le> periodsElapsed recurring anchor now)"

section \<open>The caller: one processing pass over a schedule\<close>

text \<open>
  The body of the \<open>for\<close> loop of \<open>processRecurringTransactions\<close> in
  \<open>components/FinanceTracker.tsx\<close>, with the \<open>PATCH\<close> handler of the route
  \<open>/api/recurring\<close> that it calls. The two readings of the clock (\<open>new Date()\<close> for the
  generator, \<open>new Date()\<close> again for the request body) are parameters. The handler looks
  the row up by id, answers 404 when there is none, and otherwise stores the parsed
  \<open>lastGenerated\<close> and returns the updated row.
\<close>

definition PATCH_lastGenerated ::
  "RecurringTransaction list \<Rightarrow> int \<Rightarrow> date
    \<Rightarrow> RecurringTransaction list \<times> RecurringTransaction option"
where
  "PATCH_lastGenerated rows parsedId lastGenerated =
     (case find (\<lambda>r. r_id r = parsedId) rows of
        None \<Rightarrow> (rows, None)
      | Some existingRecord \<Rightarrow>
          (map (\<lambda>r. if r_id r = parsedId
                     then r\<lparr>r_lastGenerated := Some lastGenerated\<rparr> else r) rows,
           Some (existingRecord\<lparr>r_lastGenerated := Some lastGenerated\<rparr>)))"

text \<open>
  The result of the pass for one schedule: the generated transactions that are posted,
  the rows of the server and the schedules held by the component afterwards. The
  checkpoint is requested only when something was generated, and the component replaces
  its copy only when the response is ok.
\<close>

definition processRecurring ::
  "RecurringTransaction list \<Rightarrow> RecurringTransaction list \<Rightarrow> RecurringTransaction
    \<Rightarrow> date \<Rightarrow> date
    \<Rightarrow> (Transaction list \<times> RecurringTransaction list \<times> RecurringTransaction list) option"
where
  "processRecurring rows recurringTransactions recurring clock1 clock2 =
     (case generateDueTransactions recurring clock1 of
        None \<Rightarrow> None
      | Some dueTransactions \<Rightarrow>
          if length dueTransactions > 0 then
            (case PATCH_lastGenerated rows (r_id recurring) clock2 of
               (rows', Some updated) \<Rightarrow>
                 Some (dueTransactions, rows',
                       map (\<lambda>r. if r_id r = r_id recurring then updated else r)
                         recurringTransactions)
             | (rows', None) \<Rightarrow> Some (dueTransactions, rows', recurringTransactions))
          else Some (dueTransactions, rows, recurringTransactions))"

text \<open>The checkpoint of schedule \<open>i\<close> among the rows, and the date of the last occurrence
  that the generator emits.\<close>

definition checkpointOf :: "RecurringTransaction list \<Rightarrow> int \<Rightarrow> date option" where
  "checkpointOf rows i =
     (case find (\<lambda>r. r_id r = i) rows of
        None \<Rightarrow> None
      | Some r \<Rightarrow> r_lastGenerated r)"

definition checkpointAfterPass ::
  "RecurringTransaction list \<Rightarrow> RecurringTransaction \<Rightarrow> date \<Rightarrow> date \<Rightarrow> date option"
where
  "checkpointAfterPass rows recurring clock1 clock2 =
     (case processRecurring rows rows recurring clock1 clock2 of
        None \<Rightarrow> None
      | Some (dueTransactions, rows', recurringTransactions') \<Rightarrow>
          checkpointOf rows' (r_id recurring))"

definition lastEmittedDate :: "RecurringTransaction \<Rightarrow> date \<Rightarrow> date option" where
  "lastEmittedDate recurring currentDate =
     (case generateDueTransactions recurring currentDate of
        None \<Rightarrow> None
      | Some dueTransactions \<Rightarrow>
          if dueTransactions = [] then None else Some (t_date (last dueTransactions)))"

section \<open>Concrete schedules\<close>

text \<open>The time value of the date string \<open>y-m-d\<close> (midnight UTC), months counted from 1.\<close>

definition isoDate :: "int \<Rightarrow> int \<Rightarrow> int \<Rightarrow> date" where
  "isoDate y m d = MakeDate (MakeDay y (m - 1) d) 0"

definition scenarioA :: RecurringTransaction where
  "scenarioA =
     \<lparr> r_id = 1, r_type = ''expense'', r_amount = 1200, r_category = ''Housing'',
       r_description = Some ''Rent'', r_frequency = ''monthly'',
       r_startDate = isoDate 2024 1 15, r_endDate = None, r_lastGenerated = None,
       r_isActive = True \<rparr>"

definition scenarioB :: RecurringTransaction where
  "scenarioB = scenarioA\<lparr>r_endDate := Some (isoDate 2024 3 1)\<rparr>"

definition scenarioC :: RecurringTransaction where
  "scenarioC = scenarioA\<lparr>r_endDate := Some (isoDate 2024 3 15)\<rparr>"

definition scenarioD :: RecurringTransaction where
  "scenarioD =
     \<lparr> r_id = 2, r_type = ''income'', r_amount = 5, r_category = ''Interest'',
       r_description = None, r_frequency = ''daily'',
       r_startDate = isoDate 2024 1 1, r_endDate = None,
       r_lastGenerated = Some (isoDate 2024 1 5), r_isActive = True \<rparr>"

section \<open>Facts about the calendar\<close>

subsection \<open>Years\<close>

lemma div_step:
  fixes x k :: int
  assumes k: "0 < k"
  shows "x div k - (x - 1) div k = (if x mod k = 0 then 1 else 0)"
proof (cases "x mod k = 0")
  case True
  have "x - 1 = k * (x div k - 1) + (k - 1)"
    using True by (simp add: algebra_simps mod_eq_0_iff_dvd)
  then have "(x - 1) div k = x div k - 1"
    using k int_div_pos_eq [of "x - 1" k "x div k - 1" "k - 1"] by simp
  with True show ?thesis by simp
next
  case False
  have "0 \<le> x mod k" "x mod k < k"
    using k by simp_all
  with False have r: "0 < x mod k" "x mod k < k"
    by linarith+
  have "x - 1 = k * (x div k) + (x mod k - 1)"
    by (simp add: algebra_simps)
  then have "(x - 1) div k = x div k"
    using r int_div_pos_eq [of "x - 1" k "x div k" "x mod k - 1"] by simp
  with False show ?thesis by simp
qed

lemma mod_shift:
  fixes y :: int
  assumes "k dvd c"
  shows "((y - c) mod k = 0) = (y mod k = 0)"
  using assms by (simp add: mod_eq_0_iff_dvd dvd_diff_left_iff)

lemma DaysInYear_cases: "DaysInYear y = 365 \<or> DaysInYear y = 366"
  by (simp add: DaysInYear_def)

lemma DayFromYear_next: "DayFromYear (y + 1) = DayFromYear y + DaysInYear y"
proof -
  define A where "A \<longleftrightarrow> y mod 4 = 0"
  define B where "B \<longleftrightarrow> y mod 100 = 0"
  define C where "C \<longleftrightarrow> y mod 400 = 0"
  have a: "(y - 1968) div 4 = (y - 1969) div 4 + (if A then 1 else 0)"
    unfolding A_def using div_step [of 4 "y - 1968"] mod_shift [of 4 1968 y] by simp
  have b: "(y - 1900) div 100 = (y - 1901) div 100 + (if B then 1 else 0)"
    unfolding B_def using div_step [of 100 "y - 1900"] mod_shift [of 100 1900 y] by simp
  have c: "(y - 1600) div 400 = (y - 1601) div 400 + (if C then 1 else 0)"
    unfolding C_def using div_step [of 400 "y - 1600"] mod_shift [of 400 1600 y] by simp
  have d4: "A" if "B"
  proof -
    have "100 dvd y" using that by (simp add: B_def mod_eq_0_iff_dvd)
    moreover have "(4::int) dvd 100" by simp
    ultimately have "4 dvd y" by (rule dvd_trans [rotated])
    then show ?thesis by (simp add: A_def mod_eq_0_iff_dvd)
  qed
  have d100: "B" if "C"
  proof -
    have "400 dvd y" using that by (simp add: C_def mod_eq_0_iff_dvd)
    moreover have "(100::int) dvd 400" by simp
    ultimately have "100 dvd y" by (rule dvd_trans [rotated])
    then show ?thesis by (simp add: B_def mod_eq_0_iff_dvd)
  qed
  have e: "DayFromYear (y + 1) =
      365 * (y - 1969) + (y - 1968) div 4 - (y - 1900) div 100 + (y - 1600) div 400"
    by (simp add: DayFromYear_def)
  have f: "DayFromYear y =
      365 * (y - 1970) + (y - 1969) div 4 - (y - 1901) div 100 + (y - 1601) div 400"
    by (simp add: DayFromYear_def)
  have g: "DaysInYear y = (if \<not> A then 365 else if \<not> B then 366 else if \<not> C then 365 else 366)"
    by (simp add: DaysInYear_def A_def B_def C_def)
  show ?thesis
    unfolding e f g a b c using d4 d100
    by (cases A; cases B; cases C; simp)
qed

lemma DayFromYear_less_next: "DayFromYear y < DayFromYear (y + 1)"
  using DaysInYear_cases [of y] by (auto simp: DayFromYear_next)

lemma DayFromYear_mono_aux: "0 \<le> k \<Longrightarrow> DayFromYear y \<le> DayFromYear (y + k)"
proof (induction k rule: int_ge_induct)
  case base
  show ?case by simp
next
  case (step i)
  have "DayFromYear (y + i) < DayFromYear (y + i + 1)"
    by (rule DayFromYear_less_next)
  with step show ?case by (simp add: add.assoc)
qed

lemma DayFromYear_mono: "y \<le> y' \<Longrightarrow> DayFromYear y \<le> DayFromYear y'"
  using DayFromYear_mono_aux [of "y' - y" y] by simp

lemma DayFromYear_strict_mono: "y < y' \<Longrightarrow> DayFromYear y < DayFromYear y'"
proof -
  assume "y < y'"
  then have "y + 1 \<le> y'" by simp
  then have "DayFromYear (y + 1) \<le> DayFromYear y'" by (rule DayFromYear_mono)
  with DayFromYear_less_next [of y] show ?thesis by linarith
qed

lemma div_bounds:
  fixes x k :: int
  assumes "0 < k"
  shows "k * (x div k) \<le> x" and "x < k * (x div k) + k"
proof -
  have "0 \<le> x mod k" "x mod k < k" using assms by simp_all
  moreover have "x = k * (x div k) + x mod k" by simp
  ultimately show "k * (x div k) \<le> x" and "x < k * (x div k) + k" by linarith+
qed

lemma DayFromYear_estimate:
  "146097 * (y - 1970) - 506 \<le> 400 * DayFromYear y"
  "400 * DayFromYear y \<le> 146097 * (y - 1970) + 589"
proof -
  define a where "a = (y - 1969) div 4"
  define b where "b = (y - 1901) div 100"
  define c where "c = (y - 1601) div 400"
  have a1: "400 * a \<le> 100 * y - 196900" and a2: "100 * y - 196900 \<le> 400 * a + 300"
    unfolding a_def using div_bounds [of 4 "y - 1969"] by linarith+
  have b1: "400 * b \<le> 4 * y - 7604" and b2: "4 * y - 7604 \<le> 400 * b + 396"
    unfolding b_def using div_bounds [of 100 "y - 1901"] by linarith+
  have c1: "400 * c \<le> y - 1601" and c2: "y - 1601 \<le> 400 * c + 399"
    unfolding c_def using div_bounds [of 400 "y - 1601"] by linarith+
  have d: "400 * DayFromYear y = 146000 * y - 287620000 + 400 * a - 400 * b + 400 * c"
    by (simp add: DayFromYear_def a_def b_def c_def algebra_simps)
  show "146097 * (y - 1970) - 506 \<le> 400 * DayFromYear y"
    unfolding d using a2 b1 c2 by (simp add: right_diff_distrib)
  show "400 * DayFromYear y \<le> 146097 * (y - 1970) + 589"
    unfolding d using a1 b2 c1 by (simp add: right_diff_distrib)
qed

lemma YearFromDay_bounds:
  "DayFromYear (YearFromDay d) \<le> d" "d < DayFromYear (YearFromDay d + 1)"
proof -
  define g where "g = 1970 + (400 * d) div 146097"
  have g1: "146097 * (g - 1970) \<le> 400 * d"
    and g2: "400 * d < 146097 * (g - 1970) + 146097"
    unfolding g_def using div_bounds [of 146097 "400 * d"] by simp_all
  have lo: "DayFromYear (g - 1) \<le> d"
    using DayFromYear_estimate(2) [of "g - 1"] g1 by (simp add: right_diff_distrib)
  have hi: "d < DayFromYear (g + 2)"
    using DayFromYear_estimate(1) [of "g + 2"] g2 by (simp add: right_diff_distrib distrib_left)
  have y: "YearFromDay d =
      (if DayFromYear (g + 1) \<le> d then g + 1 else if DayFromYear g \<le> d then g else g - 1)"
    by (simp add: YearFromDay_def g_def Let_def)
  show "DayFromYear (YearFromDay d) \<le> d"
    unfolding y using lo by simp
  show "d < DayFromYear (YearFromDay d + 1)"
    unfolding y using hi by (simp add: add.assoc)
qed

lemma YearFromDay_unique:
  assumes "DayFromYear y \<le> d" and "d < DayFromYear (y + 1)"
  shows "YearFromDay d = y"
proof (rule ccontr)
  assume ne: "YearFromDay d \<noteq> y"
  show False
  proof (cases "YearFromDay d < y")
    case True
    then have "DayFromYear (YearFromDay d + 1) \<le> DayFromYear y"
      by (intro DayFromYear_mono) simp
    with YearFromDay_bounds(2) [of d] assms(1) show False by linarith
  next
    case False
    with ne have "y + 1 \<le> YearFromDay d" by simp
    then have "DayFromYear (y + 1) \<le> DayFromYear (YearFromDay d)"
      by (rule DayFromYear_mono)
    with YearFromDay_bounds(1) [of d] assms(2) show False by linarith
  qed
qed

lemma YearFromDay_mono:
  assumes "d \<le> d'"
  shows "YearFromDay d \<le> YearFromDay d'"
proof (rule ccontr)
  assume "\<not> YearFromDay d \<le> YearFromDay d'"
  then have "YearFromDay d' + 1 \<le> YearFromDay d" by simp
  then have "DayFromYear (YearFromDay d' + 1) \<le> DayFromYear (YearFromDay d)"
    by (rule DayFromYear_mono)
  with YearFromDay_bounds(1) [of d] YearFromDay_bounds(2) [of d'] assms
  show False by linarith
qed

subsection \<open>Months\<close>

lemma LeapYear_cases: "LeapYear y = 0 \<or> LeapYear y = 1"
  by (simp add: LeapYear_def)

lemma DaysInYear_LeapYear: "DaysInYear y = 365 + LeapYear y"
  using DaysInYear_cases [of y] by (auto simp: LeapYear_def)

lemma MakeDay_firstDayOfMonth: "MakeDay y m dt = firstDayOfMonth (12 * y + m) + dt - 1"
proof -
  have "(12 * y + m) div 12 = y + m div 12" by simp
  moreover have "(12 * y + m) mod 12 = m mod 12" by simp
  ultimately show ?thesis
    by (simp add: MakeDay_def firstDayOfMonth_def Let_def)
qed

lemma DaysBeforeMonth_next:
  assumes "0 \<le> m" "m < 11"
  shows "DaysBeforeMonth (m + 1) leap = DaysBeforeMonth m leap + DaysInMonth m leap"
proof -
  from assms have "m = 0 \<or> m = 1 \<or> m = 2 \<or> m = 3 \<or> m = 4 \<or> m = 5 \<or> m = 6 \<or> m = 7
      \<or> m = 8 \<or> m = 9 \<or> m = 10" by presburger
  then show ?thesis
    by (elim disjE) (simp_all add: DaysBeforeMonth_def DaysInMonth_def)
qed

lemma firstDayOfMonth_next:
  "firstDayOfMonth (i + 1) = firstDayOfMonth i + daysInMonthIndex i"
proof (cases "i mod 12 = 11")
  case True
  have i: "i = 12 * (i div 12) + 11" using True div_mult_mod_eq [of i 12] by simp
  have "i + 1 = 12 * (i div 12 + 1) + 0" using i by simp
  then have d: "(i + 1) div 12 = i div 12 + 1"
    using int_div_pos_eq [of "i + 1" 12 "i div 12 + 1" 0] by simp
  have m: "(i + 1) mod 12 = 0"
    using i d div_mult_mod_eq [of "i + 1" 12] by linarith
  show ?thesis
    unfolding firstDayOfMonth_def daysInMonthIndex_def d m True
    by (simp add: DayFromYear_next DaysInYear_LeapYear DaysBeforeMonth_def DaysInMonth_def)
next
  case False
  have r: "0 \<le> i mod 12" "i mod 12 < 11"
    using False pos_mod_bound [of 12 i] by simp_all
  have "i + 1 = 12 * (i div 12) + (i mod 12 + 1)" by simp
  then have d: "(i + 1) div 12 = i div 12"
    using r int_div_pos_eq [of "i + 1" 12 "i div 12" "i mod 12 + 1"] by simp
  have m: "(i + 1) mod 12 = i mod 12 + 1"
    using r d div_mult_mod_eq [of "i + 1" 12] div_mult_mod_eq [of i 12] by linarith
  show ?thesis
    unfolding firstDayOfMonth_def daysInMonthIndex_def d m
    using DaysBeforeMonth_next [OF r] by simp
qed

lemma daysInMonthIndex_bounds: "28 \<le> daysInMonthIndex i" "daysInMonthIndex i \<le> 31"
  using LeapYear_cases [of "i div 12"]
  by (auto simp: daysInMonthIndex_def DaysInMonth_def)

lemma firstDayOfMonth_less_next: "firstDayOfMonth i < firstDayOfMonth (i + 1)"
  using daysInMonthIndex_bounds(1) [of i] by (simp add: firstDayOfMonth_next)

lemma firstDayOfMonth_mono_aux: "0 \<le> k \<Longrightarrow> firstDayOfMonth i \<le> firstDayOfMonth (i + k)"
proof (induction k rule: int_ge_induct)
  case base
  show ?case by simp
next
  case (step j)
  have "firstDayOfMonth (i + j) < firstDayOfMonth (i + j + 1)"
    by (rule firstDayOfMonth_less_next)
  with step show ?case by (simp add: add.assoc)
qed

lemma firstDayOfMonth_mono: "i \<le> j \<Longrightarrow> firstDayOfMonth i \<le> firstDayOfMonth j"
  using firstDayOfMonth_mono_aux [of "j - i" i] by simp

lemma DayWithinYear_bounds:
  "0 \<le> DayWithinYear t" "DayWithinYear t < 365 + InLeapYear t"
  using YearFromDay_bounds [of "Day t"]
  by (simp_all add: DayWithinYear_def YearFromTime_def InLeapYear_def DayFromYear_next
      DaysInYear_LeapYear)

lemma month_of_day_within_year:
  assumes "0 \<le> n" "n < 365 + leap" "leap = 0 \<or> leap = 1"
  shows "0 \<le> MonthFromDayWithinYear n leap"
    and "MonthFromDayWithinYear n leap \<le> 11"
    and "DaysBeforeMonth (MonthFromDayWithinYear n leap) leap \<le> n"
    and "n < DaysBeforeMonth (MonthFromDayWithinYear n leap) leap
           + DaysInMonth (MonthFromDayWithinYear n leap) leap"
  using assms
  by (auto simp: MonthFromDayWithinYear_def DaysBeforeMonth_def DaysInMonth_def)

lemma MonthFromTime_bounds: "0 \<le> MonthFromTime t" "MonthFromTime t \<le> 11"
  using month_of_day_within_year(1,2) [OF DayWithinYear_bounds, of t]
    LeapYear_cases [of "YearFromTime t"]
  by (simp_all add: MonthFromTime_def InLeapYear_def)

lemma monthIndex_div_mod:
  "monthIndex t div 12 = YearFromTime t" "monthIndex t mod 12 = MonthFromTime t"
proof -
  have "monthIndex t = 12 * YearFromTime t + MonthFromTime t"
    by (simp add: monthIndex_def)
  then show "monthIndex t div 12 = YearFromTime t"
    using MonthFromTime_bounds [of t]
      int_div_pos_eq [of "monthIndex t" 12 "YearFromTime t" "MonthFromTime t"] by simp
  then show "monthIndex t mod 12 = MonthFromTime t"
    using div_mult_mod_eq [of "monthIndex t" 12] by (simp add: monthIndex_def)
qed

lemma monthIndex_bounds:
  "firstDayOfMonth (monthIndex t) \<le> Day t" "Day t < firstDayOfMonth (monthIndex t + 1)"
proof -
  have l: "InLeapYear t = 0 \<or> InLeapYear t = 1"
    using LeapYear_cases [of "YearFromTime t"] by (simp add: InLeapYear_def)
  have f: "firstDayOfMonth (monthIndex t) =
      DayFromYear (YearFromTime t) + DaysBeforeMonth (MonthFromTime t) (InLeapYear t)"
    by (simp add: firstDayOfMonth_def monthIndex_div_mod InLeapYear_def)
  have d: "Day t = DayFromYear (YearFromTime t) + DayWithinYear t"
    by (simp add: DayWithinYear_def)
  show "firstDayOfMonth (monthIndex t) \<le> Day t"
    unfolding f using month_of_day_within_year(3) [OF DayWithinYear_bounds l, of ]
    by (simp add: d MonthFromTime_def)
  show "Day t < firstDayOfMonth (monthIndex t + 1)"
    unfolding firstDayOfMonth_next f daysInMonthIndex_def monthIndex_div_mod
    using month_of_day_within_year(4) [OF DayWithinYear_bounds l]
    by (simp add: d MonthFromTime_def InLeapYear_def)
qed

lemma DateFromTime_firstDayOfMonth:
  "DateFromTime t = Day t - firstDayOfMonth (monthIndex t) + 1"
  by (simp add: DateFromTime_def firstDayOfMonth_def monthIndex_div_mod InLeapYear_def
      DayWithinYear_def)

lemma DateFromTime_bounds:
  "1 \<le> DateFromTime t" "DateFromTime t \<le> daysInMonthIndex (monthIndex t)"
  using monthIndex_bounds [of t]
  by (simp_all add: DateFromTime_firstDayOfMonth firstDayOfMonth_next)

lemma monthIndex_unique:
  assumes "firstDayOfMonth i \<le> Day t" and "Day t < firstDayOfMonth (i + 1)"
  shows "monthIndex t = i"
proof (rule ccontr)
  assume ne: "monthIndex t \<noteq> i"
  show False
  proof (cases "monthIndex t < i")
    case True
    then have "firstDayOfMonth (monthIndex t + 1) \<le> firstDayOfMonth i"
      by (intro firstDayOfMonth_mono) simp
    with monthIndex_bounds(2) [of t] assms(1) show False by linarith
  next
    case False
    with ne have "i + 1 \<le> monthIndex t" by simp
    then have "firstDayOfMonth (i + 1) \<le> firstDayOfMonth (monthIndex t)"
      by (rule firstDayOfMonth_mono)
    with monthIndex_bounds(1) [of t] assms(2) show False by linarith
  qed
qed

lemma monthIndex_mono_Day:
  assumes "Day t \<le> Day t'"
  shows "monthIndex t \<le> monthIndex t'"
proof (rule ccontr)
  assume "\<not> monthIndex t \<le> monthIndex t'"
  then have "monthIndex t' + 1 \<le> monthIndex t" by simp
  then have "firstDayOfMonth (monthIndex t' + 1) \<le> firstDayOfMonth (monthIndex t)"
    by (rule firstDayOfMonth_mono)
  with monthIndex_bounds(1) [of t] monthIndex_bounds(2) [of t'] assms
  show False by linarith
qed

subsection \<open>Days, midnight and the date-fns operations\<close>

lemma msPerDay_pos: "0 < msPerDay"
  by (simp add: msPerDay_def)

lemma TimeWithinDay_bounds: "0 \<le> TimeWithinDay t" "TimeWithinDay t < msPerDay"
  using msPerDay_pos by (simp_all add: TimeWithinDay_def)

lemma MakeDate_Day: "MakeDate (Day t) (TimeWithinDay t) = t"
  by (simp add: MakeDate_def Day_def TimeWithinDay_def)

lemma Day_MakeDate:
  assumes "0 \<le> tm" "tm < msPerDay"
  shows "Day (MakeDate d tm) = d" and "TimeWithinDay (MakeDate d tm) = tm"
proof -
  have "MakeDate d tm = msPerDay * d + tm" by (simp add: MakeDate_def)
  then show "Day (MakeDate d tm) = d"
    unfolding Day_def using assms int_div_pos_eq [of "MakeDate d tm" msPerDay d tm] by simp
  then show "TimeWithinDay (MakeDate d tm) = tm"
    using div_mult_mod_eq [of "MakeDate d tm" msPerDay]
    by (simp add: Day_def TimeWithinDay_def MakeDate_def)
qed

lemma Day_mono: "t \<le> t' \<Longrightarrow> Day t \<le> Day t'"
  unfolding Day_def using msPerDay_pos by (simp add: zdiv_mono1)

lemma startOfDay_MakeDate: "startOfDay t = MakeDate (Day t) 0"
  by (simp add: startOfDay_def setHours0_def)

lemma Day_startOfDay: "Day (startOfDay t) = Day t"
  using msPerDay_pos by (simp add: startOfDay_MakeDate Day_MakeDate)

lemma TimeWithinDay_startOfDay: "TimeWithinDay (startOfDay t) = 0"
  using msPerDay_pos by (simp add: startOfDay_MakeDate Day_MakeDate)

lemma startOfDay_idem: "startOfDay (startOfDay t) = startOfDay t"
  by (simp add: startOfDay_MakeDate [of "startOfDay t"] Day_startOfDay)
    (simp add: startOfDay_MakeDate)

lemma startOfDay_le: "startOfDay t \<le> t"
  using MakeDate_Day [of t] TimeWithinDay_bounds(1) [of t]
  by (simp add: startOfDay_MakeDate MakeDate_def)

lemma startOfDay_gt: "t < startOfDay t + msPerDay"
  using MakeDate_Day [of t] TimeWithinDay_bounds(2) [of t]
  by (simp add: startOfDay_MakeDate MakeDate_def)

lemma startOfDay_fixed: "TimeWithinDay t = 0 \<Longrightarrow> startOfDay t = t"
  using MakeDate_Day [of t] by (simp add: startOfDay_MakeDate)

lemma startOfDay_mono: "t \<le> t' \<Longrightarrow> startOfDay t \<le> startOfDay t'"
  using Day_mono [of t t'] msPerDay_pos
  by (simp add: startOfDay_MakeDate MakeDate_def)

lemma midnight_less_iff:
  assumes "TimeWithinDay a = 0" "TimeWithinDay b = 0"
  shows "a < b \<longleftrightarrow> Day a < Day b"
proof -
  have "a = Day a * msPerDay" "b = Day b * msPerDay"
    using MakeDate_Day [of a] MakeDate_Day [of b] assms by (simp_all add: MakeDate_def)
  then show ?thesis using msPerDay_pos
    by (metis mult_less_cancel_right_pos)
qed

lemma addDays_eq: "addDays t k = MakeDate (Day t + k) (TimeWithinDay t)"
proof (cases "k = 0")
  case True
  then show ?thesis by (simp add: addDays_def MakeDate_Day)
next
  case False
  have "MakeDay (YearFromTime t) (MonthFromTime t) (DateFromTime t + k) = Day t + k"
    by (simp add: MakeDay_firstDayOfMonth DateFromTime_firstDayOfMonth monthIndex_def)
  with False show ?thesis
    by (simp add: addDays_def setDate_def getDate_def)
qed

lemma addMonths_eq:
  assumes "k \<noteq> 0"
  shows "addMonths t k =
    MakeDate (firstDayOfMonth (monthIndex t + k)
              + min (DateFromTime t) (daysInMonthIndex (monthIndex t + k)) - 1)
      (TimeWithinDay t)"
proof -
  define i where "i = monthIndex t + k"
  define e where "e = setMonth t (getMonth t + k + 1) 0"
  have "MakeDay (YearFromTime t) (MonthFromTime t + k + 1) 0 = firstDayOfMonth (i + 1) - 1"
    by (simp add: MakeDay_firstDayOfMonth monthIndex_def i_def algebra_simps)
  then have e: "e = MakeDate (firstDayOfMonth i + daysInMonthIndex i - 1) (TimeWithinDay t)"
    by (simp add: e_def setMonth_def getMonth_def firstDayOfMonth_next)
  have De: "Day e = firstDayOfMonth i + daysInMonthIndex i - 1"
    and Te: "TimeWithinDay e = TimeWithinDay t"
    unfolding e using TimeWithinDay_bounds [of t] by (simp_all add: Day_MakeDate)
  have Me: "monthIndex e = i"
    using daysInMonthIndex_bounds(1) [of i]
    by (intro monthIndex_unique) (simp_all add: De firstDayOfMonth_next)
  have Dte: "getDate e = daysInMonthIndex i"
    by (simp add: getDate_def DateFromTime_firstDayOfMonth Me De)
  have "MakeDay (getFullYear e) (getMonth e) (getDate t) = firstDayOfMonth i + getDate t - 1"
    using Me by (simp add: MakeDay_firstDayOfMonth getFullYear_def getMonth_def monthIndex_def)
  then have s: "setFullYear t (getFullYear e) (getMonth e) (getDate t) =
      MakeDate (firstDayOfMonth i + getDate t - 1) (TimeWithinDay t)"
    by (simp add: setFullYear_def)
  have "addMonths t k = (if getDate t \<ge> getDate e then e
      else setFullYear t (getFullYear e) (getMonth e) (getDate t))"
    using assms by (simp add: addMonths_def Let_def e_def)
  also have "\<dots> = MakeDate (firstDayOfMonth i + min (getDate t) (daysInMonthIndex i) - 1)
      (TimeWithinDay t)"
    unfolding s Dte by (simp add: e min_def)
  finally show ?thesis by (simp add: i_def getDate_def)
qed

lemma monthIndex_Day_cong: "Day t = Day t' \<Longrightarrow> monthIndex t = monthIndex t'"
  using monthIndex_mono_Day [of t t'] monthIndex_mono_Day [of t' t] by simp

lemma YearFromTime_mono: "t \<le> t' \<Longrightarrow> YearFromTime t \<le> YearFromTime t'"
  unfolding YearFromTime_def by (intro YearFromDay_mono Day_mono)

lemma monthIndex_mono: "t \<le> t' \<Longrightarrow> monthIndex t \<le> monthIndex t'"
  by (intro monthIndex_mono_Day Day_mono)

lemma addMonths_civil:
  assumes "k \<noteq> 0"
  shows "Day (addMonths t k) = firstDayOfMonth (monthIndex t + k)
           + min (DateFromTime t) (daysInMonthIndex (monthIndex t + k)) - 1"
    and "TimeWithinDay (addMonths t k) = TimeWithinDay t"
    and "monthIndex (addMonths t k) = monthIndex t + k"
    and "DateFromTime (addMonths t k) = min (DateFromTime t) (daysInMonthIndex (monthIndex t + k))"
proof -
  let ?i = "monthIndex t + k"
  let ?d = "min (DateFromTime t) (daysInMonthIndex ?i)"
  show D: "Day (addMonths t k) = firstDayOfMonth ?i + ?d - 1"
    and "TimeWithinDay (addMonths t k) = TimeWithinDay t"
    unfolding addMonths_eq [OF assms] using TimeWithinDay_bounds [of t]
    by (simp_all add: Day_MakeDate)
  have d: "1 \<le> ?d" "?d \<le> daysInMonthIndex ?i"
    using DateFromTime_bounds(1) [of t] daysInMonthIndex_bounds(1) [of ?i] by simp_all
  show M: "monthIndex (addMonths t k) = ?i"
    using d by (intro monthIndex_unique) (simp_all add: D firstDayOfMonth_next)
  show "DateFromTime (addMonths t k) = ?d"
    by (simp add: DateFromTime_firstDayOfMonth M D)
qed

lemma addMonths_advances:
  assumes "0 < k"
  shows "Day t < Day (addMonths t k)"
proof -
  have "firstDayOfMonth (monthIndex t + 1) \<le> firstDayOfMonth (monthIndex t + k)"
    using assms by (intro firstDayOfMonth_mono) simp
  moreover have "1 \<le> min (DateFromTime t) (daysInMonthIndex (monthIndex t + k))"
    using DateFromTime_bounds(1) [of t] daysInMonthIndex_bounds(1) [of "monthIndex t + k"]
    by simp
  ultimately show ?thesis
    using monthIndex_bounds(2) [of t] assms unfolding addMonths_civil(1) [of k t, OF less_imp_neq [OF assms, symmetric]]
    by linarith
qed

lemma addYears_civil:
  "YearFromTime (addYears t 1) = YearFromTime t + 1"
  "MonthFromTime (addYears t 1) = MonthFromTime t"
proof -
  have m: "monthIndex (addYears t 1) = 12 * (YearFromTime t + 1) + MonthFromTime t"
    by (simp add: addYears_def addMonths_civil(3)) (simp add: monthIndex_def)
  show "YearFromTime (addYears t 1) = YearFromTime t + 1"
    using monthIndex_div_mod(1) [of "addYears t 1"] MonthFromTime_bounds [of t]
      int_div_pos_eq [of "monthIndex (addYears t 1)" 12 "YearFromTime t + 1" "MonthFromTime t"]
    by (simp add: m)
  then show "MonthFromTime (addYears t 1) = MonthFromTime t"
    using m by (simp add: monthIndex_def)
qed

section \<open>Facts about the recurrence engine\<close>

subsection \<open>The next occurrence\<close>

lemma validFrequency_cases:
  assumes "validFrequency r"
  obtains (daily) "r_frequency r = ''daily''"
    | (weekly) "r_frequency r = ''weekly''"
    | (monthly) "r_frequency r = ''monthly''"
    | (yearly) "r_frequency r = ''yearly''"
  using assms by (auto simp: validFrequency_def VALID_FREQUENCIES_def)

lemma getNextOccurrence_daily:
  "r_frequency r = ''daily'' \<Longrightarrow> getNextOccurrence r d = MakeDate (Day d + 1) 0"
  by (simp add: getNextOccurrence_def addDays_eq Day_startOfDay TimeWithinDay_startOfDay)

lemma getNextOccurrence_weekly:
  "r_frequency r = ''weekly'' \<Longrightarrow> getNextOccurrence r d = MakeDate (Day d + 7) 0"
  by (simp add: getNextOccurrence_def addWeeks_def addDays_eq Day_startOfDay
      TimeWithinDay_startOfDay)

lemma getNextOccurrence_monthly:
  "r_frequency r = ''monthly'' \<Longrightarrow> getNextOccurrence r d = addMonths (startOfDay d) 1"
  by (simp add: getNextOccurrence_def)

lemma getNextOccurrence_yearly:
  "r_frequency r = ''yearly'' \<Longrightarrow> getNextOccurrence r d = addYears (startOfDay d) 1"
  by (simp add: getNextOccurrence_def)

lemma getNextOccurrence_other:
  "\<not> validFrequency r \<Longrightarrow> getNextOccurrence r d = startOfDay d"
  by (simp add: getNextOccurrence_def validFrequency_def VALID_FREQUENCIES_def)

lemma getNextOccurrence_midnight: "TimeWithinDay (getNextOccurrence r d) = 0"
proof (cases "validFrequency r")
  case True
  then show ?thesis
  proof (cases rule: validFrequency_cases)
    case daily
    then show ?thesis using msPerDay_pos by (simp add: getNextOccurrence_daily Day_MakeDate)
  next
    case weekly
    then show ?thesis using msPerDay_pos by (simp add: getNextOccurrence_weekly Day_MakeDate)
  next
    case monthly
    then show ?thesis
      by (simp add: getNextOccurrence_monthly addMonths_civil(2) TimeWithinDay_startOfDay)
  next
    case yearly
    then show ?thesis
      by (simp add: getNextOccurrence_yearly addYears_def addMonths_civil(2)
          TimeWithinDay_startOfDay)
  qed
next
  case False
  then show ?thesis by (simp add: getNextOccurrence_other TimeWithinDay_startOfDay)
qed

lemma startOfDay_getNextOccurrence:
  "startOfDay (getNextOccurrence r d) = getNextOccurrence r d"
  by (rule startOfDay_fixed) (rule getNextOccurrence_midnight)

lemma getNextOccurrence_Day_advances:
  assumes "validFrequency r"
  shows "Day d < Day (getNextOccurrence r d)"
  using assms
proof (cases rule: validFrequency_cases)
  case daily
  then show ?thesis using msPerDay_pos by (simp add: getNextOccurrence_daily Day_MakeDate)
next
  case weekly
  then show ?thesis using msPerDay_pos by (simp add: getNextOccurrence_weekly Day_MakeDate)
next
  case monthly
  then show ?thesis
    using addMonths_advances [of 1 "startOfDay d"]
    by (simp add: getNextOccurrence_monthly Day_startOfDay)
next
  case yearly
  then show ?thesis
    using addMonths_advances [of 12 "startOfDay d"]
    by (simp add: getNextOccurrence_yearly addYears_def Day_startOfDay)
qed

lemma getNextOccurrence_advances:
  assumes "validFrequency r"
  shows "startOfDay d + msPerDay \<le> getNextOccurrence r d" and "d < getNextOccurrence r d"
proof -
  let ?n = "getNextOccurrence r d"
  have "?n = Day ?n * msPerDay"
    using MakeDate_Day [of ?n] by (simp add: getNextOccurrence_midnight MakeDate_def)
  moreover have "(Day d + 1) * msPerDay \<le> Day ?n * msPerDay"
    using getNextOccurrence_Day_advances [OF assms, of d] msPerDay_pos
    by (intro mult_right_mono) simp_all
  ultimately show "startOfDay d + msPerDay \<le> ?n"
    by (simp add: startOfDay_MakeDate MakeDate_def algebra_simps)
  then show "d < ?n" using startOfDay_gt [of d] by linarith
qed

lemma dueLoop_measure_induct [consumes 1, case_names step]:
  assumes valid: "validFrequency r"
    and step: "\<And>a. (\<not> isAfter (getNextOccurrence r a) now \<Longrightarrow> P (getNextOccurrence r a))
                \<Longrightarrow> P a"
  shows "P a"
proof (induction a rule: measure_induct_rule [where f = "\<lambda>a. nat (Day now + 1 - Day a)"])
  case (less a)
  show ?case
  proof (rule step)
    let ?n = "getNextOccurrence r a"
    assume "\<not> isAfter ?n now"
    then have "Day ?n \<le> Day now" by (simp add: isAfter_def Day_mono)
    with getNextOccurrence_Day_advances [OF valid, of a]
    have "nat (Day now + 1 - Day ?n) < nat (Day now + 1 - Day a)" by linarith
    then show "P ?n" by (rule less.IH)
  qed
qed

subsection \<open>The loop: accumulator, unfolding and induction\<close>

text \<open>
  The loop appends to the array it was given, so a run started with any array is the run
  started with the empty one, prefixed. \<open>dueLoop_Nil_induct\<close> is the induction principle
  over the runs that return: one case for each way through the loop body.
\<close>

lemma dueLoop_prepend_all:
  "dueLoop r now a acc = Some ys \<Longrightarrow> \<forall>pre. dueLoop r now a (pre @ acc) = Some (pre @ ys)"
proof (erule dueLoop.raw_induct [rotated], goal_cases)
  case (1 loop r now a acc ys)
  show ?case
  proof
    fix pre
    show "dueLoop r now a (pre @ acc) = Some (pre @ ys)"
      using 1 by (subst dueLoop.simps) (auto simp: Let_def split: if_splits)
  qed
qed

lemma dueLoop_prepend:
  "dueLoop r now a acc = Some ys \<Longrightarrow> dueLoop r now a (pre @ acc) = Some (pre @ ys)"
  using dueLoop_prepend_all by blast

lemma dueLoop_strip:
  "dueLoop r now a acc = Some ys \<Longrightarrow> \<exists>zs. ys = acc @ zs \<and> dueLoop r now a [] = Some zs"
proof (erule dueLoop.raw_induct [rotated], goal_cases)
  case (1 loop r now a acc ys)
  let ?n = "getNextOccurrence r a"
  show ?case
  proof (cases "isAfter ?n now")
    case True
    with 1(2) show ?thesis by (subst dueLoop.simps) (simp add: Let_def)
  next
    case notAfter: False
    show ?thesis
    proof (cases "isBefore ?n (startOfDay (r_startDate r))")
      case True
      with notAfter 1(2) have "loop r now ?n acc = Some ys" by (simp add: Let_def)
      from 1(1) [OF this] True notAfter show ?thesis
        by (subst dueLoop.simps) (simp add: Let_def)
    next
      case notBefore: False
      show ?thesis
      proof (cases "endDatePassed r ?n")
        case True
        with notAfter notBefore 1(2) show ?thesis
          by (subst dueLoop.simps) (simp add: Let_def)
      next
        case False
        with notAfter notBefore 1(2)
        have "loop r now ?n (acc @ [newTransaction r ?n]) = Some ys" by (simp add: Let_def)
        from 1(1) [OF this] obtain zs where
          zs: "ys = (acc @ [newTransaction r ?n]) @ zs" "dueLoop r now ?n [] = Some zs"
          by blast
        have "dueLoop r now ?n ([newTransaction r ?n] @ []) = Some ([newTransaction r ?n] @ zs)"
          using zs(2) by (rule dueLoop_prepend)
        then have "dueLoop r now a [] = Some (newTransaction r ?n # zs)"
          using False notAfter notBefore by (subst dueLoop.simps) (simp add: Let_def)
        with zs(1) show ?thesis by simp
      qed
    qed
  qed
qed

lemma dueLoop_acc:
  "dueLoop r now a acc = map_option ((@) acc) (dueLoop r now a [])"
proof (cases "dueLoop r now a []")
  case None
  have "dueLoop r now a acc = None"
  proof (rule ccontr)
    assume "dueLoop r now a acc \<noteq> None"
    then obtain ys where "dueLoop r now a acc = Some ys" by blast
    from dueLoop_strip [OF this] None show False by simp
  qed
  with None show ?thesis by simp
next
  case (Some zs)
  from dueLoop_prepend [OF this, of acc] Some show ?thesis by simp
qed

lemma dueLoop_Nil_unfold:
  "dueLoop r now a [] =
     (let n = getNextOccurrence r a
      in if isAfter n now then Some []
         else if isBefore n (startOfDay (r_startDate r)) then dueLoop r now n []
         else if endDatePassed r n then Some []
         else map_option ((#) (newTransaction r n)) (dueLoop r now n []))"
proof -
  have "map_option ((@) [newTransaction r n]) x = map_option ((#) (newTransaction r n)) x"
    for n x by (cases x) simp_all
  then show ?thesis
    by (subst dueLoop.simps) (simp add: Let_def dueLoop_acc [of r now _ "[_]"])
qed

lemma dueLoop_Nil_induct [consumes 1, case_names future skip ended emit]:
  assumes run: "dueLoop r now a [] = Some zs"
    and future: "\<And>a. isAfter (getNextOccurrence r a) now \<Longrightarrow> P a []"
    and skip: "\<And>a zs. \<not> isAfter (getNextOccurrence r a) now
        \<Longrightarrow> isBefore (getNextOccurrence r a) (startOfDay (r_startDate r))
        \<Longrightarrow> dueLoop r now (getNextOccurrence r a) [] = Some zs
        \<Longrightarrow> P (getNextOccurrence r a) zs \<Longrightarrow> P a zs"
    and ended: "\<And>a. \<not> isAfter (getNextOccurrence r a) now
        \<Longrightarrow> \<not> isBefore (getNextOccurrence r a) (startOfDay (r_startDate r))
        \<Longrightarrow> endDatePassed r (getNextOccurrence r a) \<Longrightarrow> P a []"
    and emit: "\<And>a zs. \<not> isAfter (getNextOccurrence r a) now
        \<Longrightarrow> \<not> isBefore (getNextOccurrence r a) (startOfDay (r_startDate r))
        \<Longrightarrow> \<not> endDatePassed r (getNextOccurrence r a)
        \<Longrightarrow> dueLoop r now (getNextOccurrence r a) [] = Some zs
        \<Longrightarrow> P (getNextOccurrence r a) zs
        \<Longrightarrow> P a (newTransaction r (getNextOccurrence r a) # zs)"
  shows "P a zs"
proof -
  have "r' = r \<longrightarrow> now' = now \<longrightarrow>
      (\<exists>zs. ys = acc @ zs \<and> dueLoop r now a [] = Some zs \<and> P a zs)"
    if "dueLoop r' now' a acc = Some ys" for r' now' a acc ys
    using that
  proof (elim dueLoop.raw_induct [rotated], goal_cases)
    case (1 loop r' now' a acc ys)
    show ?case
    proof (intro impI)
      assume r': "r' = r" and now': "now' = now"
      note IH = 1(1) [rule_format, of r now]
      note eq = 1(2) [unfolded r' now']
      let ?n = "getNextOccurrence r a"
      show "\<exists>zs. ys = acc @ zs \<and> dueLoop r now a [] = Some zs \<and> P a zs"
      proof (cases "isAfter ?n now")
        case True
        with eq future [OF True] show ?thesis
          by (subst dueLoop_Nil_unfold) (simp add: Let_def)
      next
        case notAfter: False
        show ?thesis
        proof (cases "isBefore ?n (startOfDay (r_startDate r))")
          case True
          with notAfter eq have "loop r now ?n acc = Some ys" by (simp add: Let_def)
          from IH [OF this] obtain zs where
            zs: "ys = acc @ zs" "dueLoop r now ?n [] = Some zs" "P ?n zs" by blast
          from skip [OF notAfter True zs(2,3)] zs(1,2) notAfter True show ?thesis
            by (subst dueLoop_Nil_unfold) (simp add: Let_def)
        next
          case notBefore: False
          show ?thesis
          proof (cases "endDatePassed r ?n")
            case True
            with notAfter notBefore eq ended [OF notAfter notBefore True] show ?thesis
              by (subst dueLoop_Nil_unfold) (simp add: Let_def)
          next
            case False
            with notAfter notBefore eq
            have "loop r now ?n (acc @ [newTransaction r ?n]) = Some ys"
              by (simp add: Let_def)
            from IH [OF this] obtain zs where
              zs: "ys = (acc @ [newTransaction r ?n]) @ zs" "dueLoop r now ?n [] = Some zs"
                "P ?n zs" by blast
            from emit [OF notAfter notBefore False zs(2,3)] zs(1,2) notAfter notBefore False
            show ?thesis
              by (subst dueLoop_Nil_unfold) (simp add: Let_def)
          qed
        qed
      qed
    qed
  qed
  from this [OF run] show ?thesis by simp
qed

subsection \<open>Concrete dates\<close>

lemma isoDate_values:
  "isoDate 2024 1 15 = 1705276800000"
  "isoDate 2024 2 15 = 1707955200000"
  "isoDate 2024 3 1 = 1709251200000"
  "isoDate 2024 3 15 = 1710460800000"
  "isoDate 2024 4 10 = 1712707200000"
  "isoDate 2024 4 15 = 1713139200000"
  by code_simp+

lemma startOfDay_values:
  "startOfDay 1705276800000 = 1705276800000"
  "startOfDay 1707955200000 = 1707955200000"
  "startOfDay 1709251200000 = 1709251200000"
  "startOfDay 1710460800000 = 1710460800000"
  "startOfDay 1712707200000 = 1712707200000"
  by code_simp+

lemma addMonths_values:
  "addMonths 1705276800000 1 = 1707955200000"
  "addMonths 1707955200000 1 = 1710460800000"
  "addMonths 1710460800000 1 = 1713139200000"
  by code_simp+

subsection \<open>What a run of the loop returns\<close>

lemma dueLoop_emitted:
  assumes "dueLoop r now a [] = Some zs" and "t \<in> set zs"
  shows "\<exists>a'. t = newTransaction r (getNextOccurrence r a')
           \<and> \<not> isAfter (getNextOccurrence r a') now
           \<and> \<not> isBefore (getNextOccurrence r a') (startOfDay (r_startDate r))
           \<and> \<not> endDatePassed r (getNextOccurrence r a')"
  using assms
proof (induction rule: dueLoop_Nil_induct)
  case (emit a zs)
  then show ?case by auto
qed simp_all

lemma dueLoop_last:
  assumes "dueLoop r now a [] = Some zs" and "zs \<noteq> []"
  shows "dueLoop r now (t_date (last zs)) [] = Some []"
  using assms
proof (induction rule: dueLoop_Nil_induct)
  case (emit a zs)
  then show ?case by (cases "zs = []") (simp_all add: newTransaction_def)
qed simp_all

lemma dueLoop_lastGenerated_Some:
  "dueLoop r now a acc = Some ys
     \<Longrightarrow> \<forall>g. dueLoop (r\<lparr>r_lastGenerated := g\<rparr>) now a acc = Some ys"
proof (erule dueLoop.raw_induct [rotated], goal_cases)
  case (1 loop r now a acc ys)
  show ?case
  proof
    fix g
    show "dueLoop (r\<lparr>r_lastGenerated := g\<rparr>) now a acc = Some ys"
      using 1
      by (subst dueLoop.simps)
        (auto simp: Let_def getNextOccurrence_def endDatePassed_def newTransaction_def
          split: if_splits)
  qed
qed

lemma dueLoop_sorted:
  assumes "dueLoop r now a [] = Some zs" and "validFrequency r"
  shows "sorted_wrt (<) (map t_date zs) \<and> (\<forall>t\<in>set zs. a < t_date t)"
  using assms
proof (induction rule: dueLoop_Nil_induct)
  case (skip a zs)
  then show ?case using getNextOccurrence_advances(2) [of r a] by fastforce
next
  case (emit a zs)
  then show ?case using getNextOccurrence_advances(2) [of r a]
    by (fastforce simp: newTransaction_def)
qed simp_all

lemma dueLoop_terminates:
  assumes "validFrequency r"
  shows "\<exists>ys. dueLoop r now a acc = Some ys"
proof -
  have "\<exists>zs. dueLoop r now a [] = Some zs"
    using assms
  proof (induction a rule: dueLoop_measure_induct [where now = now])
    case (step a)
    then show ?case
      by (subst dueLoop_Nil_unfold) (auto simp: Let_def)
  qed
  then show ?thesis by (auto simp: dueLoop_acc [of r now a acc])
qed

lemma generateDueTransactions_Some:
  assumes "generateDueTransactions r cur = Some txs" and "txs \<noteq> []"
  shows "r_isActive r" and "\<not> endDatePassed r (startOfDay cur)"
    and "dueLoop r (startOfDay cur)
           (case r_lastGenerated r of Some g \<Rightarrow> startOfDay g
            | None \<Rightarrow> startOfDay (r_startDate r)) [] = Some txs"
  using assms by (auto simp: generateDueTransactions_def Let_def split: if_splits)

lemma generateDueTransactions_emitted:
  assumes "generateDueTransactions r cur = Some txs" and "t \<in> set txs"
  shows "\<exists>a'. t = newTransaction r (getNextOccurrence r a')
           \<and> \<not> isAfter (getNextOccurrence r a') (startOfDay cur)
           \<and> \<not> isBefore (getNextOccurrence r a') (startOfDay (r_startDate r))
           \<and> \<not> endDatePassed r (getNextOccurrence r a')"
proof -
  from assms(2) have "txs \<noteq> []" by auto
  from dueLoop_emitted [OF generateDueTransactions_Some(3) [OF assms(1) this] assms(2)]
  show ?thesis .
qed

text \<open>
  Inside the generator the first guard has established that \<open>now\<close> is not after the
  end date, so a candidate that is not after \<open>now\<close> is not after the end date either: the
  candidates after the end date are stopped by the test against \<open>now\<close>.
\<close>

lemma endDate_test_unreachable:
  assumes "\<not> endDatePassed r now" and "\<not> isAfter nextDue now"
  shows "\<not> endDatePassed r nextDue"
  using assms by (auto simp: endDatePassed_def isAfter_def split: option.splits)

subsection \<open>Runs of concrete monthly schedules\<close>

lemma monthly_run_2024:
  assumes "r_frequency r = ''monthly''" "r_startDate r = isoDate 2024 1 15"
  shows "getNextOccurrence r 1705276800000 = 1707955200000"
    and "getNextOccurrence r 1707955200000 = 1710460800000"
    and "getNextOccurrence r 1710460800000 = 1713139200000"
  using assms
  by (simp_all add: getNextOccurrence_monthly startOfDay_values addMonths_values)

lemma monthly_run_open:
  assumes "r_frequency r = ''monthly''"
    and "r_startDate r = isoDate 2024 1 15"
    and "r_lastGenerated r = None"
    and "r_endDate r = None"
    and "r_isActive r"
    and "startOfDay now = isoDate 2024 4 10"
  shows "generateDueTransactions r now =
           Some [newTransaction r (isoDate 2024 2 15), newTransaction r (isoDate 2024 3 15)]"
proof -
  have "dueLoop r 1712707200000 1705276800000 [] =
      Some [newTransaction r 1707955200000, newTransaction r 1710460800000]"
    using assms(2,4)
    by (simp add: dueLoop_Nil_unfold [of r _ 1705276800000]
        dueLoop_Nil_unfold [of r _ 1707955200000] dueLoop_Nil_unfold [of r _ 1710460800000]
        monthly_run_2024 [OF assms(1,2)] isAfter_def isBefore_def endDatePassed_def
        isoDate_values startOfDay_values)
  then show ?thesis
    using assms
    by (simp add: generateDueTransactions_def endDatePassed_def Let_def isoDate_values
        startOfDay_values)
qed

lemma monthly_run_ended:
  assumes "r_frequency r = ''monthly''"
    and "r_startDate r = isoDate 2024 1 15"
    and "r_lastGenerated r = None"
    and "r_endDate r = Some (isoDate 2024 3 1)"
    and "r_isActive r"
  shows "startOfDay now = isoDate 2024 4 10 \<Longrightarrow> generateDueTransactions r now = Some []"
    and "startOfDay now = isoDate 2024 3 1 \<Longrightarrow>
            generateDueTransactions r now = Some [newTransaction r (isoDate 2024 2 15)]"
proof -
  have "dueLoop r 1709251200000 1705276800000 [] = Some [newTransaction r 1707955200000]"
    using assms(2,4)
    by (simp add: dueLoop_Nil_unfold [of r _ 1705276800000]
        dueLoop_Nil_unfold [of r _ 1707955200000]
        monthly_run_2024 [OF assms(1,2)] isAfter_def isBefore_def endDatePassed_def
        isoDate_values startOfDay_values)
  then show "startOfDay now = isoDate 2024 4 10 \<Longrightarrow> generateDueTransactions r now = Some []"
    and "startOfDay now = isoDate 2024 3 1 \<Longrightarrow>
            generateDueTransactions r now = Some [newTransaction r (isoDate 2024 2 15)]"
    using assms
    by (simp_all add: generateDueTransactions_def endDatePassed_def Let_def isoDate_values
        startOfDay_values isAfter_def)
qed

lemma monthly_run_boundary:
  assumes "r_frequency r = ''monthly''"
    and "r_startDate r = isoDate 2024 1 15"
    and "r_lastGenerated r = None"
    and "r_endDate r = Some (isoDate 2024 3 15)"
    and "r_isActive r"
    and "startOfDay now = isoDate 2024 3 15"
  shows "generateDueTransactions r now =
           Some [newTransaction r (isoDate 2024 2 15), newTransaction r (isoDate 2024 3 15)]"
proof -
  have "dueLoop r 1710460800000 1705276800000 [] =
      Some [newTransaction r 1707955200000, newTransaction r 1710460800000]"
    using assms(2,4)
    by (simp add: dueLoop_Nil_unfold [of r _ 1705276800000]
        dueLoop_Nil_unfold [of r _ 1707955200000] dueLoop_Nil_unfold [of r _ 1710460800000]
        monthly_run_2024 [OF assms(1,2)] isAfter_def isBefore_def endDatePassed_def
        isoDate_values startOfDay_values)
  then show ?thesis
    using assms
    by (simp add: generateDueTransactions_def endDatePassed_def Let_def isoDate_values
        startOfDay_values isAfter_def)
qed

lemma scenarioA_fields:
  "r_frequency scenarioA = ''monthly''" "r_startDate scenarioA = isoDate 2024 1 15"
  "r_lastGenerated scenarioA = None" "r_endDate scenarioA = None" "r_isActive scenarioA"
  "validFrequency scenarioA"
  by (simp_all add: scenarioA_def validFrequency_def VALID_FREQUENCIES_def)

lemma scenarioB_fields:
  "r_frequency scenarioB = ''monthly''" "r_startDate scenarioB = isoDate 2024 1 15"
  "r_lastGenerated scenarioB = None" "r_endDate scenarioB = Some (isoDate 2024 3 1)"
  "r_isActive scenarioB" "validFrequency scenarioB"
  by (simp_all add: scenarioB_def scenarioA_def validFrequency_def VALID_FREQUENCIES_def)

lemma scenarioC_fields:
  "r_frequency scenarioC = ''monthly''" "r_startDate scenarioC = isoDate 2024 1 15"
  "r_lastGenerated scenarioC = None" "r_endDate scenarioC = Some (isoDate 2024 3 15)"
  "r_isActive scenarioC" "validFrequency scenarioC"
  by (simp_all add: scenarioC_def scenarioA_def validFrequency_def VALID_FREQUENCIES_def)

lemma startOfDay_isoDate:
  "startOfDay (isoDate 2024 1 15) = isoDate 2024 1 15"
  "startOfDay (isoDate 2024 2 15) = isoDate 2024 2 15"
  "startOfDay (isoDate 2024 3 1) = isoDate 2024 3 1"
  "startOfDay (isoDate 2024 3 15) = isoDate 2024 3 15"
  "startOfDay (isoDate 2024 4 10) = isoDate 2024 4 10"
  by (simp_all add: isoDate_values startOfDay_values)

lemma scenarioA_run:
  "generateDueTransactions scenarioA (isoDate 2024 4 10) =
     Some [newTransaction scenarioA (isoDate 2024 2 15),
           newTransaction scenarioA (isoDate 2024 3 15)]"
  by (rule monthly_run_open [OF scenarioA_fields(1-5) startOfDay_isoDate(5)])

lemma scenarioC_run:
  "generateDueTransactions scenarioC (isoDate 2024 3 15) =
     Some [newTransaction scenarioC (isoDate 2024 2 15),
           newTransaction scenarioC (isoDate 2024 3 15)]"
  by (rule monthly_run_boundary [OF scenarioC_fields(1-5) startOfDay_isoDate(4)])

subsection \<open>One unit later, in calendar terms\<close>

lemma Day_Time_cong:
  "Day t = Day t' \<Longrightarrow> YearFromTime t = YearFromTime t'"
  "Day t = Day t' \<Longrightarrow> MonthFromTime t = MonthFromTime t'"
  "Day t = Day t' \<Longrightarrow> DateFromTime t = DateFromTime t'"
  by (simp_all add: YearFromTime_def MonthFromTime_def DateFromTime_def DayWithinYear_def
      InLeapYear_def)

lemma startOfDay_civil:
  "monthIndex (startOfDay d) = monthIndex d"
  "YearFromTime (startOfDay d) = YearFromTime d"
  "MonthFromTime (startOfDay d) = MonthFromTime d"
  "DateFromTime (startOfDay d) = DateFromTime d"
  using Day_startOfDay [of d]
  by (blast intro: monthIndex_Day_cong Day_Time_cong)+

lemma startOfDay_plus_days: "startOfDay d + k * msPerDay = MakeDate (Day d + k) 0"
  by (simp add: startOfDay_MakeDate MakeDate_def algebra_simps)

lemma frequencies_valid:
  "validFrequency (scenarioA\<lparr>r_frequency := ''daily''\<rparr>)"
  "validFrequency (scenarioA\<lparr>r_frequency := ''weekly''\<rparr>)"
  "validFrequency (scenarioA\<lparr>r_frequency := ''yearly''\<rparr>)"
  by (simp_all add: validFrequency_def VALID_FREQUENCIES_def)

lemma next_occurrence_values:
  "startOfDay 1706709600000 + msPerDay = isoDate 2024 2 1"
  "startOfDay 1706709600000 + 7 * msPerDay = isoDate 2024 2 7"
  "startOfDay 1706709600000 = isoDate 2024 1 31"
  "getNextOccurrence scenarioA 1706709600000 = isoDate 2024 2 29"
  "getNextOccurrence (scenarioA\<lparr>r_frequency := ''yearly''\<rparr>) (isoDate 2024 2 29)
     = isoDate 2025 2 28"
  by code_simp+

subsection \<open>Termination and the number of iterations\<close>

lemma periodsElapsed_step:
  assumes valid: "validFrequency r" and due: "\<not> isAfter (getNextOccurrence r a) now"
  shows "periodsElapsed r (getNextOccurrence r a) now = periodsElapsed r a now - 1"
    and "1 \<le> periodsElapsed r a now"
proof -
  let ?n = "getNextOccurrence r a"
  from due have le: "?n \<le> now" by (simp add: isAfter_def)
  note D = Day_mono [OF le] and M = monthIndex_mono [OF le] and Y = YearFromTime_mono [OF le]
  have "periodsElapsed r ?n now = periodsElapsed r a now - 1 \<and> 1 \<le> periodsElapsed r a now"
    using valid
  proof (cases rule: validFrequency_cases)
    case daily
    then have "Day ?n = Day a + 1"
      using msPerDay_pos by (simp add: getNextOccurrence_daily Day_MakeDate)
    with D daily show ?thesis by (simp add: periodsElapsed_def)
  next
    case weekly
    then have n: "Day ?n = Day a + 7"
      using msPerDay_pos by (simp add: getNextOccurrence_weekly Day_MakeDate)
    have "(Day now - Day a - 7) div 7 = (Day now - Day a) div 7 - 1"
      using div_mult_self1 [of 7 "Day now - Day a" "- 1"] by simp
    moreover have "0 < (Day now - Day a) div 7"
      using D n pos_imp_zdiv_pos_iff [of 7 "Day now - Day a"] by simp
    ultimately show ?thesis using weekly n by (simp add: periodsElapsed_def algebra_simps)
  next
    case monthly
    then have "monthIndex ?n = monthIndex a + 1"
      by (simp add: getNextOccurrence_monthly addMonths_civil(3) startOfDay_civil)
    with M monthly show ?thesis by (simp add: periodsElapsed_def)
  next
    case yearly
    then have "YearFromTime ?n = YearFromTime a + 1"
      by (simp add: getNextOccurrence_yearly addYears_civil startOfDay_civil)
    with Y yearly show ?thesis by (simp add: periodsElapsed_def)
  qed
  then show "periodsElapsed r ?n now = periodsElapsed r a now - 1"
    and "1 \<le> periodsElapsed r a now" by simp_all
qed

lemma dueLoopIterations_bound:
  assumes "validFrequency r"
  shows "\<exists>k. dueLoopIterations r now a = Some k
           \<and> int k \<le> max 0 (periodsElapsed r a now) + 1"
  using assms
proof (induction a rule: dueLoop_measure_induct [where now = now])
  case (step a)
  let ?n = "getNextOccurrence r a"
  show ?case
  proof (cases "isAfter ?n now")
    case True
    then show ?thesis by (subst dueLoopIterations.simps) (simp add: Let_def)
  next
    case False
    from step [OF False] obtain k where
      k: "dueLoopIterations r now ?n = Some k" "int k \<le> max 0 (periodsElapsed r ?n now) + 1"
      by blast
    from periodsElapsed_step [OF assms False] k(2)
    have "int (Suc k) \<le> max 0 (periodsElapsed r a now) + 1" by simp
    moreover have "int 1 \<le> max 0 (periodsElapsed r a now) + 1" by simp
    ultimately show ?thesis
      using False k(1) by (subst dueLoopIterations.simps) (simp add: Let_def)
  qed
qed

lemma generateDueTransactions_terminates:
  assumes "validFrequency r"
  shows "\<exists>txs. generateDueTransactions r cur = Some txs"
  using dueLoop_terminates [OF assms]
  by (simp add: generateDueTransactions_def Let_def)

text \<open>
  The generator is a function of the schedule and of \<open>now\<close>, so that two calls with the
  same arguments agree is built into the embedding and is no theorem about the code.
  What the code adds is that, for a valid frequency, the list exists and its dates
  ascend strictly.
\<close>

lemma generateDueTransactions_ascending:
  assumes "validFrequency r"
  shows "\<exists>txs. generateDueTransactions r now = Some txs
           \<and> sorted_wrt (<) (map t_date txs)"
proof -
  let ?a = "case r_lastGenerated r of Some g \<Rightarrow> startOfDay g
            | None \<Rightarrow> startOfDay (r_startDate r)"
  from dueLoop_terminates [OF assms, of "startOfDay now" ?a "[]"]
  obtain zs where zs: "dueLoop r (startOfDay now) ?a [] = Some zs" by blast
  from dueLoop_sorted [OF zs assms] have s: "sorted_wrt (<) (map t_date zs)" by simp
  show ?thesis
  proof (cases "\<not> r_isActive r \<or> endDatePassed r (startOfDay now)")
    case True
    then have "generateDueTransactions r now = Some []"
      by (auto simp: generateDueTransactions_def Let_def)
    then show ?thesis by simp
  next
    case False
    then have "generateDueTransactions r now = Some zs"
      using zs by (simp add: generateDueTransactions_def Let_def)
    with s show ?thesis by simp
  qed
qed

text \<open>
  The counting loop follows the generating loop: when the latter returns, so does the
  former, and fewer occurrences are emitted than iterations are run.
\<close>

lemma dueLoop_iterations:
  assumes "dueLoop r now a [] = Some zs"
  shows "\<exists>k. dueLoopIterations r now a = Some k \<and> length zs < k"
  using assms
proof (induction rule: dueLoop_Nil_induct)
  case (future a)
  then show ?case by (subst dueLoopIterations.simps) (simp add: Let_def)
next
  case (skip a zs)
  then show ?case by (subst dueLoopIterations.simps) (auto simp: Let_def)
next
  case (ended a)
  then show ?case by (subst dueLoopIterations.simps) (simp add: Let_def)
next
  case (emit a zs)
  then show ?case by (subst dueLoopIterations.simps) (auto simp: Let_def)
qed

lemma dueLoop_length_bound:
  assumes "validFrequency r" and "dueLoop r now a [] = Some zs"
  shows "int (length zs) \<le> max 0 (periodsElapsed r a now)"
proof -
  from dueLoop_iterations [OF assms(2)] obtain k where
    k: "dueLoopIterations r now a = Some k" "length zs < k" by blast
  from dueLoopIterations_bound [OF assms(1), of now a] k(1)
  have "int k \<le> max 0 (periodsElapsed r a now) + 1" by simp
  with k(2) show ?thesis by linarith
qed

text \<open>
  Without a valid frequency the \<open>default\<close> branch of \<open>getNextOccurrence\<close> returns the
  anchor itself: a run that returns must have found the anchor after \<open>now\<close> or after the
  end date, and an open-ended active schedule that is due never leaves the loop.
\<close>

lemma dueLoop_invalid_frequency:
  "dueLoop r now a acc = Some ys \<Longrightarrow>
     \<not> validFrequency r \<longrightarrow> isAfter (startOfDay a) now \<or> endDatePassed r (startOfDay a)"
proof (erule dueLoop.raw_induct [rotated], goal_cases)
  case (1 loop r now a acc ys)
  show ?case
  proof
    assume inv: "\<not> validFrequency r"
    then have n: "getNextOccurrence r a = startOfDay a"
      by (rule getNextOccurrence_other)
    show "isAfter (startOfDay a) now \<or> endDatePassed r (startOfDay a)"
    proof (rule ccontr)
      assume due: "\<not> (isAfter (startOfDay a) now \<or> endDatePassed r (startOfDay a))"
      with 1(2) n have "loop r now (startOfDay a) acc = Some ys
          \<or> loop r now (startOfDay a) (acc @ [newTransaction r (startOfDay a)]) = Some ys"
        by (simp add: Let_def split: if_splits)
      with 1(1) inv have "isAfter (startOfDay (startOfDay a)) now
          \<or> endDatePassed r (startOfDay (startOfDay a))" by blast
      with due show False by (simp add: startOfDay_idem)
    qed
  qed
qed

lemma generateDueTransactions_invalid_frequency_diverges:
  assumes "\<not> validFrequency r" and "r_isActive r" and "r_endDate r = None"
    and "r_lastGenerated r = None" and "\<not> isAfter (r_startDate r) now"
  shows "generateDueTransactions r now = None"
proof (cases "generateDueTransactions r now")
  case (Some ys)
  then have "dueLoop r (startOfDay now) (startOfDay (r_startDate r)) [] = Some ys"
    using assms by (simp add: generateDueTransactions_def Let_def endDatePassed_def)
  from dueLoop_invalid_frequency [OF this] assms(1,3,5)
  have "isAfter (startOfDay (startOfDay (r_startDate r))) (startOfDay now)"
    by (simp add: endDatePassed_def)
  with assms(5) startOfDay_mono [of "r_startDate r" now] show ?thesis
    by (simp add: isAfter_def startOfDay_idem)
qed simp

lemma scenarioD_fields:
  "validFrequency scenarioD" "r_frequency scenarioD = ''daily''"
  by (simp_all add: scenarioD_def validFrequency_def VALID_FREQUENCIES_def)

subsection \<open>The checkpoint request\<close>

lemma find_PATCH:
  "find (\<lambda>r. r_id r = i)
     (map (\<lambda>r. if r_id r = i then r\<lparr>r_lastGenerated := Some d\<rparr> else r) rows)
   = map_option (\<lambda>r. r\<lparr>r_lastGenerated := Some d\<rparr>) (find (\<lambda>r. r_id r = i) rows)"
  by (induction rows) simp_all

lemma checkpointOf_PATCH:
  assumes "find (\<lambda>r. r_id r = i) rows = Some existing"
  shows "checkpointOf (fst (PATCH_lastGenerated rows i d)) i = Some d"
  using assms by (simp add: PATCH_lastGenerated_def checkpointOf_def find_PATCH)

section \<open>The claims of the specification\<close>

text \<open>
  C1: For a schedule with frequency monthly, start date 2024-01-15, no checkpoint, end
  date 2024-03-01 and the active flag set, the generator called with \<open>now\<close> = 2024-04-10
  would emit exactly one occurrence, dated 2024-02-15. The code returns nothing: on
  2024-04-10 the end date has passed and the first guard of the generator applies.
\<close>

theorem scenario_B_counterexample:
  "map_option (map t_date) (generateDueTransactions scenarioB (isoDate 2024 4 10))
     \<noteq> Some [isoDate 2024 2 15]"
  by (simp add: generateDueTransactions_def endDatePassed_def scenarioB_def scenarioA_def
      isoDate_values startOfDay_values isAfter_def)

text \<open>
  C1 as amended: for that schedule the generator emits nothing when \<open>now\<close> is on
  2024-04-10, and exactly the occurrence of 2024-02-15 when \<open>now\<close> is on the end date
  2024-03-01.
\<close>

theorem scenario_B_lapsed:
  assumes "r_frequency r = ''monthly''"
    and "r_startDate r = isoDate 2024 1 15"
    and "r_lastGenerated r = None"
    and "r_endDate r = Some (isoDate 2024 3 1)"
    and "r_isActive r"
  shows "(startOfDay now = isoDate 2024 4 10 \<longrightarrow> generateDueTransactions r now = Some [])
       \<and> (startOfDay now = isoDate 2024 3 1 \<longrightarrow>
            generateDueTransactions r now = Some [newTransaction r (isoDate 2024 2 15)])"
  using monthly_run_ended [OF assms] by blast

theorem scenario_B_witness:
  "r_frequency scenarioB = ''monthly''
   \<and> r_startDate scenarioB = isoDate 2024 1 15
   \<and> r_lastGenerated scenarioB = None
   \<and> r_endDate scenarioB = Some (isoDate 2024 3 1)
   \<and> r_isActive scenarioB
   \<and> startOfDay (isoDate 2024 4 10) = isoDate 2024 4 10
   \<and> generateDueTransactions scenarioB (isoDate 2024 4 10) = Some []
   \<and> startOfDay (isoDate 2024 3 1) = isoDate 2024 3 1
   \<and> generateDueTransactions scenarioB (isoDate 2024 3 1) =
        Some [newTransaction scenarioB (isoDate 2024 2 15)]"
proof -
  note h = scenarioB_fields(1-5)
  note d = startOfDay_isoDate(5) startOfDay_isoDate(3)
  from scenario_B_lapsed [OF h, of "isoDate 2024 4 10"]
    scenario_B_lapsed [OF h, of "isoDate 2024 3 1"] h d
  show ?thesis by blast
qed

text \<open>
  C2: If a call of the generator emits a non-empty list, then a second call on the same
  schedule with \<open>lastGenerated\<close> set to the date of the last emitted occurrence, and the
  same \<open>now\<close>, returns the empty sequence: nothing is emitted again once the checkpoint has
  advanced. (A schedule that emits anything is active.)
\<close>

theorem checkpoint_advance_no_reemission:
  assumes "generateDueTransactions r now = Some txs" and "txs \<noteq> []"
  shows "generateDueTransactions (r\<lparr>r_lastGenerated := Some (t_date (last txs))\<rparr>) now = Some []"
proof -
  note g = generateDueTransactions_Some [OF assms]
  from assms(2) have "last txs \<in> set txs" by simp
  from generateDueTransactions_emitted [OF assms(1) this]
  have fixed: "startOfDay (t_date (last txs)) = t_date (last txs)"
    by (auto simp: newTransaction_def startOfDay_getNextOccurrence)
  from dueLoop_last [OF g(3) assms(2)]
  have "dueLoop r (startOfDay now) (t_date (last txs)) [] = Some []" .
  from dueLoop_lastGenerated_Some [OF this]
  have "dueLoop (r\<lparr>r_lastGenerated := Some (t_date (last txs))\<rparr>) (startOfDay now)
      (t_date (last txs)) [] = Some []" by blast
  then show ?thesis
    using g(1,2) fixed by (simp add: generateDueTransactions_def Let_def endDatePassed_def)
qed

theorem checkpoint_advance_witness:
  "generateDueTransactions scenarioA (isoDate 2024 4 10) =
     Some [newTransaction scenarioA (isoDate 2024 2 15),
           newTransaction scenarioA (isoDate 2024 3 15)]
   \<and> [newTransaction scenarioA (isoDate 2024 2 15),
       newTransaction scenarioA (isoDate 2024 3 15)] \<noteq> []
   \<and> generateDueTransactions (scenarioA\<lparr>r_lastGenerated := Some (isoDate 2024 3 15)\<rparr>)
        (isoDate 2024 4 10) = Some []"
proof -
  have ne: "[newTransaction scenarioA (isoDate 2024 2 15),
       newTransaction scenarioA (isoDate 2024 3 15)] \<noteq> []" by simp
  from checkpoint_advance_no_reemission [OF scenarioA_run ne] scenarioA_run
  show ?thesis by (simp add: newTransaction_def)
qed

text \<open>
  C3: After a pass in which the generator emitted a non-empty list for a schedule, the
  caller would set the schedule's \<open>lastGenerated\<close> to the date of the last emitted
  occurrence, and leave it unchanged when the list was empty. The caller sends the
  current time instead: after the pass of 2024-04-10 over the schedule of scenario A the
  checkpoint is 2024-04-10, while the last emitted occurrence is dated 2024-03-15.
\<close>

theorem pass_checkpoint_counterexample:
  "lastEmittedDate scenarioA (isoDate 2024 4 10) = Some (isoDate 2024 3 15)
   \<and> checkpointAfterPass [scenarioA] scenarioA (isoDate 2024 4 10) (isoDate 2024 4 10)
       = Some (isoDate 2024 4 10)
   \<and> checkpointAfterPass [scenarioA] scenarioA (isoDate 2024 4 10) (isoDate 2024 4 10)
       \<noteq> lastEmittedDate scenarioA (isoDate 2024 4 10)"
  by (simp add: lastEmittedDate_def checkpointAfterPass_def processRecurring_def
      PATCH_lastGenerated_def checkpointOf_def scenarioA_run)
    (simp add: newTransaction_def isoDate_values)

text \<open>
  C3 as amended: after a pass in which the generator emitted a non-empty list for a stored
  schedule, the schedule's \<open>lastGenerated\<close> is the time at which the caller sent the
  update (its second reading of the clock); when the list was empty no request is made
  and \<open>lastGenerated\<close>, the rows and the component's schedules are unchanged.
\<close>

theorem pass_sets_checkpoint_to_clock:
  assumes "generateDueTransactions recurring clock1 = Some due"
    and "find (\<lambda>r. r_id r = r_id recurring) rows = Some existing"
  shows "(due \<noteq> [] \<longrightarrow> checkpointAfterPass rows recurring clock1 clock2 = Some clock2)
       \<and> (due = [] \<longrightarrow>
            checkpointAfterPass rows recurring clock1 clock2 = r_lastGenerated existing
            \<and> processRecurring rows recurringTransactions recurring clock1 clock2
                = Some ([], rows, recurringTransactions))"
  using assms
  by (auto simp: checkpointAfterPass_def processRecurring_def PATCH_lastGenerated_def
      checkpointOf_def find_PATCH)

theorem pass_sets_checkpoint_witness:
  "generateDueTransactions scenarioA (isoDate 2024 4 10) =
     Some [newTransaction scenarioA (isoDate 2024 2 15),
           newTransaction scenarioA (isoDate 2024 3 15)]
   \<and> find (\<lambda>r. r_id r = r_id scenarioA) [scenarioA] = Some scenarioA
   \<and> checkpointAfterPass [scenarioA] scenarioA (isoDate 2024 4 10) (isoDate 2024 4 10 + 250)
       = Some (isoDate 2024 4 10 + 250)
   \<and> generateDueTransactions scenarioD (isoDate 2024 1 5) = Some []
   \<and> find (\<lambda>r. r_id r = r_id scenarioD) [scenarioA, scenarioD] = Some scenarioD
   \<and> checkpointAfterPass [scenarioA, scenarioD] scenarioD (isoDate 2024 1 5)
        (isoDate 2024 1 5 + 250) = Some (isoDate 2024 1 5)"
proof -
  have f: "find (\<lambda>r. r_id r = r_id scenarioA) [scenarioA] = Some scenarioA"
    "find (\<lambda>r. r_id r = r_id scenarioD) [scenarioA, scenarioD] = Some scenarioD"
    by (simp_all add: scenarioA_def scenarioD_def)
  have d: "generateDueTransactions scenarioD (isoDate 2024 1 5) = Some []"
    by code_simp
  from pass_sets_checkpoint_to_clock [OF scenarioA_run f(1), of "isoDate 2024 4 10 + 250"]
    pass_sets_checkpoint_to_clock [OF d f(2), of "isoDate 2024 1 5 + 250"]
    scenarioA_run f d
  show ?thesis by (simp add: scenarioD_def)
qed

text \<open>
  C4: If a schedule's end date is set and the day of \<open>now\<close> is strictly after the day of
  the end date, the generator returns the empty sequence, whatever was or was not
  generated before; and if the schedule is not active it returns the empty sequence
  regardless of all other fields.
\<close>

theorem lapsed_or_inactive_generates_nothing:
  "(r_endDate r = Some e \<and> isAfter (startOfDay now) (startOfDay e)
      \<longrightarrow> generateDueTransactions r now = Some [])
   \<and> (\<not> r_isActive r \<longrightarrow> generateDueTransactions r now = Some [])"
  by (simp add: generateDueTransactions_def endDatePassed_def Let_def)

text \<open>
  The lapsed schedule of the witness never generated anything, and its first occurrence
  (2024-02-15) lies inside its window.
\<close>

theorem lapsed_or_inactive_witness:
  "r_endDate scenarioB = Some (isoDate 2024 3 1)
   \<and> isAfter (startOfDay (isoDate 2024 4 10)) (startOfDay (isoDate 2024 3 1))
   \<and> r_lastGenerated scenarioB = None
   \<and> getNextOccurrence scenarioB (r_startDate scenarioB) = isoDate 2024 2 15
   \<and> \<not> isAfter (isoDate 2024 2 15) (startOfDay (isoDate 2024 3 1))
   \<and> generateDueTransactions scenarioB (isoDate 2024 4 10) = Some []
   \<and> \<not> r_isActive (scenarioA\<lparr>r_isActive := False\<rparr>)
   \<and> generateDueTransactions (scenarioA\<lparr>r_isActive := False\<rparr>) (isoDate 2024 4 10) = Some []"
  using lapsed_or_inactive_generates_nothing
          [of scenarioB "isoDate 2024 3 1" "isoDate 2024 4 10"]
        lapsed_or_inactive_generates_nothing
          [of "scenarioA\<lparr>r_isActive := False\<rparr>" "isoDate 2024 3 1" "isoDate 2024 4 10"]
  by (simp add: scenarioB_def scenarioA_def isoDate_values startOfDay_values isAfter_def
      getNextOccurrence_def addMonths_values)

text \<open>
  C5: For a schedule with frequency monthly, start date 2024-01-15, no checkpoint, no end
  date and the active flag set, the generator called with a \<open>now\<close> on 2024-04-10 emits
  exactly two occurrences, dated 2024-02-15 and 2024-03-15 in that order: 2024-04-15 is
  after \<open>now\<close>, and nothing is emitted on the start date itself.
\<close>

theorem scenario_A_two_occurrences:
  assumes "r_frequency r = ''monthly''"
    and "r_startDate r = isoDate 2024 1 15"
    and "r_lastGenerated r = None"
    and "r_endDate r = None"
    and "r_isActive r"
    and "startOfDay now = isoDate 2024 4 10"
  shows "generateDueTransactions r now =
           Some [newTransaction r (isoDate 2024 2 15), newTransaction r (isoDate 2024 3 15)]
         \<and> map_option (map t_date) (generateDueTransactions r now) =
           Some [isoDate 2024 2 15, isoDate 2024 3 15]"
  using monthly_run_open [OF assms] by (simp add: newTransaction_def)

theorem scenario_A_witness:
  "r_frequency scenarioA = ''monthly''
   \<and> r_startDate scenarioA = isoDate 2024 1 15
   \<and> r_lastGenerated scenarioA = None
   \<and> r_endDate scenarioA = None
   \<and> r_isActive scenarioA
   \<and> startOfDay (isoDate 2024 4 10) = isoDate 2024 4 10
   \<and> map_option (map t_date) (generateDueTransactions scenarioA (isoDate 2024 4 10)) =
         Some [isoDate 2024 2 15, isoDate 2024 3 15]"
proof -
  note h = scenarioA_fields(1-5) startOfDay_isoDate(5)
  from scenario_A_two_occurrences [OF h] h show ?thesis by blast
qed

text \<open>
  C6: With an end date set, a candidate occurrence that lands exactly on the day of the
  end date (and is due, and not before the start date) is emitted; a candidate strictly
  after the end date stops the loop and is left out; hence every emitted occurrence is
  dated on or before the day of the end date.
\<close>

theorem endDate_boundary:
  assumes "r_endDate r = Some e"
  shows "(validFrequency r \<and> getNextOccurrence r a = startOfDay e
            \<and> \<not> isAfter (startOfDay e) now
            \<and> \<not> isBefore (startOfDay e) (startOfDay (r_startDate r))
          \<longrightarrow> (\<exists>ys. dueLoop r now a acc = Some ys \<and> newTransaction r (startOfDay e) \<in> set ys))
       \<and> (isAfter (getNextOccurrence r a') (startOfDay e)
            \<and> \<not> isBefore (getNextOccurrence r a') (startOfDay (r_startDate r))
          \<longrightarrow> dueLoop r now' a' acc = Some acc)
       \<and> (\<forall>txs. generateDueTransactions r cur = Some txs
            \<longrightarrow> (\<forall>t\<in>set txs. t_date t \<le> startOfDay e))"
proof (intro conjI impI allI ballI)
  assume h: "validFrequency r \<and> getNextOccurrence r a = startOfDay e
      \<and> \<not> isAfter (startOfDay e) now
      \<and> \<not> isBefore (startOfDay e) (startOfDay (r_startDate r))"
  let ?tx = "newTransaction r (startOfDay e)"
  have step: "dueLoop r now a acc = dueLoop r now (startOfDay e) (acc @ [?tx])"
    using h assms by (subst dueLoop.simps) (simp add: Let_def endDatePassed_def isAfter_def)
  from dueLoop_terminates [of r now "startOfDay e" "acc @ [?tx]"] h
  obtain ys where ys: "dueLoop r now (startOfDay e) (acc @ [?tx]) = Some ys" by blast
  from dueLoop_strip [OF this] have "?tx \<in> set ys" by auto
  with step ys show "\<exists>ys. dueLoop r now a acc = Some ys \<and> ?tx \<in> set ys" by simp
next
  assume "isAfter (getNextOccurrence r a') (startOfDay e)
      \<and> \<not> isBefore (getNextOccurrence r a') (startOfDay (r_startDate r))"
  then show "dueLoop r now' a' acc = Some acc"
    using assms by (subst dueLoop.simps) (simp add: Let_def endDatePassed_def)
next
  fix txs t
  assume "generateDueTransactions r cur = Some txs" and "t \<in> set txs"
  from generateDueTransactions_emitted [OF this] show "t_date t \<le> startOfDay e"
    using assms by (auto simp: endDatePassed_def isAfter_def newTransaction_def)
qed

text \<open>
  The witness is the schedule of scenario A with the end date 2024-03-15. Run to
  2024-03-15 it emits the occurrence on the end date. The loop run from there to
  2024-04-20 finds the candidate 2024-04-15 due but after the end date, and stops.
\<close>

theorem endDate_boundary_witness:
  "r_endDate scenarioC = Some (isoDate 2024 3 15)
   \<and> validFrequency scenarioC
   \<and> getNextOccurrence scenarioC (isoDate 2024 2 15) = startOfDay (isoDate 2024 3 15)
   \<and> \<not> isAfter (startOfDay (isoDate 2024 3 15)) (isoDate 2024 3 15)
   \<and> \<not> isBefore (startOfDay (isoDate 2024 3 15)) (startOfDay (r_startDate scenarioC))
   \<and> (\<exists>ys. dueLoop scenarioC (isoDate 2024 3 15) (isoDate 2024 2 15) [] = Some ys
         \<and> newTransaction scenarioC (startOfDay (isoDate 2024 3 15)) \<in> set ys)
   \<and> isAfter (getNextOccurrence scenarioC (isoDate 2024 3 15)) (startOfDay (isoDate 2024 3 15))
   \<and> \<not> isBefore (getNextOccurrence scenarioC (isoDate 2024 3 15))
         (startOfDay (r_startDate scenarioC))
   \<and> \<not> isAfter (getNextOccurrence scenarioC (isoDate 2024 3 15)) (isoDate 2024 4 20)
   \<and> dueLoop scenarioC (isoDate 2024 4 20) (isoDate 2024 3 15) [] = Some []
   \<and> generateDueTransactions scenarioC (isoDate 2024 3 15) =
        Some [newTransaction scenarioC (isoDate 2024 2 15),
              newTransaction scenarioC (isoDate 2024 3 15)]
   \<and> t_date (newTransaction scenarioC (isoDate 2024 2 15)) \<le> startOfDay (isoDate 2024 3 15)
   \<and> t_date (newTransaction scenarioC (isoDate 2024 3 15)) \<le> startOfDay (isoDate 2024 3 15)"
proof -
  have n: "getNextOccurrence scenarioC (isoDate 2024 2 15) = startOfDay (isoDate 2024 3 15)"
    "getNextOccurrence scenarioC (isoDate 2024 3 15) = isoDate 2024 4 15"
    using monthly_run_2024 [OF scenarioC_fields(1,2)]
    by (simp_all add: isoDate_values startOfDay_values)
  have c: "\<not> isAfter (startOfDay (isoDate 2024 3 15)) (isoDate 2024 3 15)"
    "\<not> isBefore (startOfDay (isoDate 2024 3 15)) (startOfDay (r_startDate scenarioC))"
    "isAfter (getNextOccurrence scenarioC (isoDate 2024 3 15)) (startOfDay (isoDate 2024 3 15))"
    "\<not> isBefore (getNextOccurrence scenarioC (isoDate 2024 3 15))
         (startOfDay (r_startDate scenarioC))"
    unfolding n scenarioC_fields(2)
    by (simp_all add: isoDate_values startOfDay_values isAfter_def isBefore_def)
  have d: "\<not> isAfter (isoDate 2024 4 15) (isoDate 2024 4 20)"
    by code_simp
  from endDate_boundary [OF scenarioC_fields(4), where a = "isoDate 2024 2 15"
      and now = "isoDate 2024 3 15" and acc = "[]" and a' = "isoDate 2024 3 15"
      and now' = "isoDate 2024 4 20" and cur = "isoDate 2024 3 15"]
    scenarioC_fields(4,6) n c d scenarioC_run
  show ?thesis by simp
qed

text \<open>
  C7: For every input date and every frequency among daily, weekly, monthly and yearly,
  the next-occurrence function (a total function of its arguments) returns the local
  midnight of the input advanced by exactly one unit: one day, one week, one calendar
  month (the following month, same day of the month, clamped to the length of that month)
  or one calendar year (the following year, same month, same day clamped likewise).
\<close>

theorem getNextOccurrence_one_unit:
  assumes "validFrequency r"
  shows "startOfDay (getNextOccurrence r d) = getNextOccurrence r d
       \<and> (r_frequency r = ''daily'' \<longrightarrow>
            getNextOccurrence r d = startOfDay d + msPerDay)
       \<and> (r_frequency r = ''weekly'' \<longrightarrow>
            getNextOccurrence r d = startOfDay d + 7 * msPerDay)
       \<and> (r_frequency r = ''monthly'' \<longrightarrow>
            monthIndex (getNextOccurrence r d) = monthIndex d + 1
            \<and> DateFromTime (getNextOccurrence r d) =
                min (DateFromTime d) (daysInMonthIndex (monthIndex d + 1)))
       \<and> (r_frequency r = ''yearly'' \<longrightarrow>
            YearFromTime (getNextOccurrence r d) = YearFromTime d + 1
            \<and> MonthFromTime (getNextOccurrence r d) = MonthFromTime d
            \<and> DateFromTime (getNextOccurrence r d) =
                min (DateFromTime d) (daysInMonthIndex (monthIndex d + 12)))"
proof (intro conjI impI)
  show "startOfDay (getNextOccurrence r d) = getNextOccurrence r d"
    by (rule startOfDay_getNextOccurrence)
next
  assume "r_frequency r = ''daily''"
  then show "getNextOccurrence r d = startOfDay d + msPerDay"
    using startOfDay_plus_days [of d 1] by (simp add: getNextOccurrence_daily)
next
  assume "r_frequency r = ''weekly''"
  then show "getNextOccurrence r d = startOfDay d + 7 * msPerDay"
    using startOfDay_plus_days [of d 7] by (simp add: getNextOccurrence_weekly)
next
  assume f: "r_frequency r = ''monthly''"
  note c = startOfDay_civil
  show "monthIndex (getNextOccurrence r d) = monthIndex d + 1"
    by (simp add: getNextOccurrence_monthly [OF f] addMonths_civil(3) c)
  show "DateFromTime (getNextOccurrence r d) =
      min (DateFromTime d) (daysInMonthIndex (monthIndex d + 1))"
    by (simp add: getNextOccurrence_monthly [OF f] addMonths_civil(4) c)
next
  assume f: "r_frequency r = ''yearly''"
  note c = startOfDay_civil
  show "YearFromTime (getNextOccurrence r d) = YearFromTime d + 1"
    by (simp add: getNextOccurrence_yearly [OF f] addYears_civil c)
  show "MonthFromTime (getNextOccurrence r d) = MonthFromTime d"
    by (simp add: getNextOccurrence_yearly [OF f] addYears_civil c)
  show "DateFromTime (getNextOccurrence r d) =
      min (DateFromTime d) (daysInMonthIndex (monthIndex d + 12))"
    by (simp add: getNextOccurrence_yearly [OF f] addYears_def addMonths_civil(4) c)
qed

theorem getNextOccurrence_one_unit_witness:
  "validFrequency (scenarioA\<lparr>r_frequency := ''daily''\<rparr>)
   \<and> getNextOccurrence (scenarioA\<lparr>r_frequency := ''daily''\<rparr>) 1706709600000
       = startOfDay 1706709600000 + msPerDay
   \<and> startOfDay 1706709600000 + msPerDay = isoDate 2024 2 1
   \<and> validFrequency (scenarioA\<lparr>r_frequency := ''weekly''\<rparr>)
   \<and> getNextOccurrence (scenarioA\<lparr>r_frequency := ''weekly''\<rparr>) 1706709600000
       = startOfDay 1706709600000 + 7 * msPerDay
   \<and> startOfDay 1706709600000 + 7 * msPerDay = isoDate 2024 2 7
   \<and> validFrequency scenarioA
   \<and> startOfDay 1706709600000 = isoDate 2024 1 31
   \<and> monthIndex (getNextOccurrence scenarioA 1706709600000) = monthIndex 1706709600000 + 1
   \<and> DateFromTime (getNextOccurrence scenarioA 1706709600000)
       = min (DateFromTime 1706709600000) (daysInMonthIndex (monthIndex 1706709600000 + 1))
   \<and> getNextOccurrence scenarioA 1706709600000 = isoDate 2024 2 29
   \<and> validFrequency (scenarioA\<lparr>r_frequency := ''yearly''\<rparr>)
   \<and> YearFromTime (getNextOccurrence (scenarioA\<lparr>r_frequency := ''yearly''\<rparr>)
         (isoDate 2024 2 29)) = YearFromTime (isoDate 2024 2 29) + 1
   \<and> MonthFromTime (getNextOccurrence (scenarioA\<lparr>r_frequency := ''yearly''\<rparr>)
         (isoDate 2024 2 29)) = MonthFromTime (isoDate 2024 2 29)
   \<and> getNextOccurrence (scenarioA\<lparr>r_frequency := ''yearly''\<rparr>) (isoDate 2024 2 29)
       = isoDate 2025 2 28"
  using getNextOccurrence_one_unit [OF frequencies_valid(1), of 1706709600000]
    getNextOccurrence_one_unit [OF frequencies_valid(2), of 1706709600000]
    getNextOccurrence_one_unit [OF scenarioA_fields(6), of 1706709600000]
    getNextOccurrence_one_unit [OF frequencies_valid(3), of "isoDate 2024 2 29"]
    frequencies_valid scenarioA_fields(1,6) next_occurrence_values
  by simp

text \<open>
  C8: For every schedule with a valid frequency and every \<open>now\<close>, the generation loop
  terminates: each iteration moves \<open>nextDue\<close> strictly forward, and the number of
  iterations would be bounded by the number of periods of the frequency elapsed between
  the initial anchor and \<open>now\<close>. The loop tests for the exit inside its body, so it runs
  once even when no period has elapsed: with the checkpoint on the day of \<open>now\<close> (the
  spec's scenario C) the body is entered once and zero periods have elapsed.
\<close>

theorem iterations_exceed_periods_counterexample:
  "generateDueTransactions scenarioD (isoDate 2024 1 5) = Some []
   \<and> dueLoopIterations scenarioD (startOfDay (isoDate 2024 1 5)) (startOfDay (isoDate 2024 1 5))
       = Some 1
   \<and> periodsElapsed scenarioD (startOfDay (isoDate 2024 1 5)) (startOfDay (isoDate 2024 1 5)) = 0
   \<and> \<not> iterationsWithinPeriods scenarioD (startOfDay (isoDate 2024 1 5))
         (startOfDay (isoDate 2024 1 5))"
  by code_simp

text \<open>
  C8 as amended: for every schedule with a valid frequency and every \<open>now\<close>, each
  iteration moves \<open>nextDue\<close> strictly forward, the loop and the generator return, and the
  number of iterations is at most one more than the number of periods elapsed between
  the anchor and \<open>now\<close> (days, whole weeks, calendar months or calendar years between the
  two days); the extra iteration is the one that finds the candidate not yet due, and the
  number of emitted occurrences is at most the number of periods elapsed.
\<close>

theorem dueLoop_terminates_within_periods:
  assumes "validFrequency r"
  shows "nextDue < getNextOccurrence r nextDue
       \<and> (\<exists>txs. dueLoop r now a [] = Some txs
             \<and> int (length txs) \<le> max 0 (periodsElapsed r a now))
       \<and> (\<exists>txs. generateDueTransactions r cur = Some txs)
       \<and> (\<exists>k. dueLoopIterations r now a = Some k
             \<and> int k \<le> max 0 (periodsElapsed r a now) + 1)"
proof -
  from dueLoop_terminates [OF assms, of now a "[]"] obtain txs where
    "dueLoop r now a [] = Some txs" by blast
  with dueLoop_length_bound [OF assms this]
  have "\<exists>txs. dueLoop r now a [] = Some txs
      \<and> int (length txs) \<le> max 0 (periodsElapsed r a now)" by blast
  with getNextOccurrence_advances(2) [OF assms, of nextDue]
    generateDueTransactions_terminates [OF assms, of cur]
    dueLoopIterations_bound [OF assms, of now a]
  show ?thesis by blast
qed

theorem dueLoop_terminates_witness:
  "validFrequency scenarioA
   \<and> isoDate 2024 1 15 < getNextOccurrence scenarioA (isoDate 2024 1 15)
   \<and> dueLoop scenarioA (isoDate 2024 4 10) (isoDate 2024 1 15) [] =
       Some [newTransaction scenarioA (isoDate 2024 2 15),
             newTransaction scenarioA (isoDate 2024 3 15)]
   \<and> generateDueTransactions scenarioA (isoDate 2024 4 10) =
       Some [newTransaction scenarioA (isoDate 2024 2 15),
             newTransaction scenarioA (isoDate 2024 3 15)]
   \<and> dueLoopIterations scenarioA (isoDate 2024 4 10) (isoDate 2024 1 15) = Some 3
   \<and> periodsElapsed scenarioA (isoDate 2024 1 15) (isoDate 2024 4 10) = 3"
proof -
  have "dueLoop scenarioA (isoDate 2024 4 10) (isoDate 2024 1 15) [] =
       Some [newTransaction scenarioA (isoDate 2024 2 15),
             newTransaction scenarioA (isoDate 2024 3 15)]"
    "dueLoopIterations scenarioA (isoDate 2024 4 10) (isoDate 2024 1 15) = Some 3"
    "periodsElapsed scenarioA (isoDate 2024 1 15) (isoDate 2024 4 10) = 3"
    by code_simp+
  with dueLoop_terminates_within_periods [OF scenarioA_fields(6), of "isoDate 2024 1 15"
      "isoDate 2024 4 10" "isoDate 2024 1 15" "isoDate 2024 4 10"] scenarioA_fields(6)
    scenarioA_run
  show ?thesis by simp
qed

text \<open>
  C10: Every instance that the generator emits carries the type, amount and category of
  its schedule unchanged, the id of the schedule as \<open>recurringId\<close>, the description of the
  schedule followed by the suffix \<open>" (Auto)"\<close> (an absent description is rendered by the
  template literal as \<open>null\<close>), and a date that is a local midnight and not after the
  day of \<open>now\<close>.
\<close>

theorem emitted_instance_fields:
  assumes "generateDueTransactions r now = Some txs" and "t \<in> set txs"
  shows "t_type t = r_type r \<and> t_amount t = r_amount r \<and> t_category t = r_category r
       \<and> t_recurringId t = r_id r
       \<and> t_description t = templateString (r_description r) @ '' (Auto)''
       \<and> (\<forall>s. r_description r = Some s \<longrightarrow> t_description t = s @ '' (Auto)'')
       \<and> startOfDay (t_date t) = t_date t
       \<and> t_date t \<le> startOfDay now"
proof -
  from generateDueTransactions_emitted [OF assms] obtain a' where
    t: "t = newTransaction r (getNextOccurrence r a')"
    and le: "\<not> isAfter (getNextOccurrence r a') (startOfDay now)" by blast
  show ?thesis
    using le startOfDay_getNextOccurrence [of r a']
    by (auto simp: t newTransaction_def templateString_def isAfter_def)
qed

theorem emitted_instance_fields_witness:
  "generateDueTransactions scenarioA (isoDate 2024 4 10) =
     Some [newTransaction scenarioA (isoDate 2024 2 15),
           newTransaction scenarioA (isoDate 2024 3 15)]
   \<and> newTransaction scenarioA (isoDate 2024 3 15)
       \<in> set [newTransaction scenarioA (isoDate 2024 2 15),
               newTransaction scenarioA (isoDate 2024 3 15)]
   \<and> t_type (newTransaction scenarioA (isoDate 2024 3 15)) = ''expense''
   \<and> t_amount (newTransaction scenarioA (isoDate 2024 3 15)) = 1200
   \<and> t_category (newTransaction scenarioA (isoDate 2024 3 15)) = ''Housing''
   \<and> t_recurringId (newTransaction scenarioA (isoDate 2024 3 15)) = 1
   \<and> t_description (newTransaction scenarioA (isoDate 2024 3 15)) = ''Rent (Auto)''
   \<and> startOfDay (t_date (newTransaction scenarioA (isoDate 2024 3 15)))
       = t_date (newTransaction scenarioA (isoDate 2024 3 15))
   \<and> t_date (newTransaction scenarioA (isoDate 2024 3 15)) \<le> startOfDay (isoDate 2024 4 10)"
proof -
  have m: "newTransaction scenarioA (isoDate 2024 3 15)
       \<in> set [newTransaction scenarioA (isoDate 2024 2 15),
               newTransaction scenarioA (isoDate 2024 3 15)]" by simp
  from emitted_instance_fields [OF scenarioA_run m] scenarioA_run m
  show ?thesis by (simp add: scenarioA_def templateString_def)
qed

end
